theory Spec2Isabelle
  imports Main
begin

section \<open>Python values and exceptions\<close>

text \<open>
  The orchestrator (\<^verbatim>\<open>backend/api/orchestrator/utils.py\<close>) passes Python dicts between
  its functions. Dicts with a fixed key set are records below; dicts whose key set varies
  (the review details, the aggregate result) are association lists from key to value, in
  the order the source writes the keys.

  An instance of Python's \<^verbatim>\<open>Exception\<close> is \<open>Exception m\<close>, with \<open>m\<close> what
  \<^verbatim>\<open>str(e)\<close> gives; every handler of the module is \<^verbatim>\<open>except Exception\<close> and catches
  exactly these. What a coroutine awaited by the workflow may raise is more: an instance of
  \<^verbatim>\<open>Exception\<close> (\<open>Exc e\<close>), or a \<^verbatim>\<open>BaseException\<close> that is not one
  (\<open>Base_exception m\<close>: \<^verbatim>\<open>asyncio.CancelledError\<close>, \<^verbatim>\<open>KeyboardInterrupt\<close>,
  \<^verbatim>\<open>SystemExit\<close>), which no handler of the module catches. A call that may raise returns
  a sum, with \<open>Inl\<close> what was raised.
\<close>

datatype exn = Exception string

fun str_exn :: "exn \<Rightarrow> string" where
  "str_exn (Exception m) = m"

datatype raised = Exc exn | Base_exception string

datatype pyval = PNone | PBool bool | PInt int | PStr string

text \<open>\<^verbatim>\<open>d.get(key, default)\<close> on a dict.\<close>

definition dict_get :: "(string \<times> 'v) list \<Rightarrow> string \<Rightarrow> 'v \<Rightarrow> 'v" where
  "dict_get d k dflt = (case map_of d k of None \<Rightarrow> dflt | Some v \<Rightarrow> v)"


section \<open>Paths and the filesystem\<close>

text \<open>
  \<^verbatim>\<open>os.path.basename\<close>, \<^verbatim>\<open>os.path.join\<close> (two components) and
  \<^verbatim>\<open>os.path.splitext\<close> as CPython's \<^verbatim>\<open>posixpath\<close> computes them:
  the basename is what follows the last slash; the extension starts at the last dot of the
  last component, unless only dots precede that dot there.
\<close>

definition basename :: "string \<Rightarrow> string" where
  "basename p = rev (takeWhile (\<lambda>c. c \<noteq> CHR ''/'') (rev p))"

definition os_path_join :: "string \<Rightarrow> string \<Rightarrow> string" where
  "os_path_join a b =
     (if b \<noteq> [] \<and> hd b = CHR ''/'' then b
      else if a = [] \<or> last a = CHR ''/'' then a @ b
      else a @ ''/'' @ b)"

definition splitext :: "string \<Rightarrow> string \<times> string" where
  "splitext p =
     (if CHR ''.'' \<notin> set p then (p, [])
      else
        let after_dot = takeWhile (\<lambda>c. c \<noteq> CHR ''.'') (rev p);
            dotIndex = length p - length after_dot - 1;
            root = take dotIndex p;
            ext = drop dotIndex p
        in if CHR ''/'' \<in> set ext then (p, [])
           else if \<forall>c \<in> set (basename root). c = CHR ''.'' then (p, [])
           else (root, ext))"

text \<open>
  The filesystem: the set of paths at which a file exists, and the set of paths the
  operating system refuses to change (no permission, a read-only or missing directory, a
  file in use). \<^verbatim>\<open>shutil.move\<close> and \<^verbatim>\<open>os.remove\<close> raise \<^verbatim>\<open>OSError\<close>, an instance of
  \<^verbatim>\<open>Exception\<close>, when the source does not exist and when a path they have to change is
  refused. Otherwise \<^verbatim>\<open>shutil.move\<close> renames: the source path disappears and the
  destination path exists afterwards, whether or not a file was there before; and
  \<^verbatim>\<open>os.remove\<close> makes the path disappear. \<^verbatim>\<open>os.makedirs(d, exist_ok=True)\<close> raises
  when \<open>d\<close> is an existing file or is refused, and otherwise leaves the files as they are
  (directories are not recorded).
\<close>

record filesystem =
  paths :: "string set"
  denied :: "string set"

definition os_path_exists :: "filesystem \<Rightarrow> string \<Rightarrow> bool" where
  "os_path_exists fs p = (p \<in> paths fs)"

definition shutil_move :: "filesystem \<Rightarrow> string \<Rightarrow> string \<Rightarrow> exn + filesystem" where
  "shutil_move fs src dst =
     (if src \<notin> paths fs
      then Inl (Exception (''[Errno 2] No such file or directory: '' @ src))
      else if src \<in> denied fs \<or> dst \<in> denied fs
      then Inl (Exception (''[Errno 13] Permission denied: '' @ dst))
      else Inr (fs\<lparr>paths := insert dst (paths fs - {src})\<rparr>))"

definition os_remove :: "filesystem \<Rightarrow> string \<Rightarrow> exn + filesystem" where
  "os_remove fs p =
     (if p \<notin> paths fs
      then Inl (Exception (''[Errno 2] No such file or directory: '' @ p))
      else if p \<in> denied fs
      then Inl (Exception (''[Errno 13] Permission denied: '' @ p))
      else Inr (fs\<lparr>paths := paths fs - {p}\<rparr>))"

definition os_makedirs :: "filesystem \<Rightarrow> string \<Rightarrow> exn + filesystem" where
  "os_makedirs fs d =
     (if d \<in> paths fs
      then Inl (Exception (''[Errno 17] File exists: '' @ d))
      else if d \<in> denied fs
      then Inl (Exception (''[Errno 13] Permission denied: '' @ d))
      else Inr fs)"


section \<open>Artifacts, reviews and counters\<close>

text \<open>
  A downloaded song is the dict \<^verbatim>\<open>{"file_path", "index", "title"}\<close> built by
  \<^verbatim>\<open>download_both_songs\<close>; a review record extends it with the verdict and the review
  details. The verdict is whatever value the details carry under \<^verbatim>\<open>"verdict"\<close>, so it
  is a Python value and not only one of the three expected strings.
\<close>

record song =
  file_path :: string
  index :: int
  title :: string

record review = song +
  verdict :: pyval
  review_details :: "(string \<times> pyval) list"

record verdict_counts =
  kept_count :: nat
  deleted_count :: nat

record final_verdict_counts = verdict_counts +
  preserved_count :: nat

record failsafe_counts =
  moved_count :: nat
  error_count :: nat


section \<open>The verdict router, normal mode\<close>

text \<open>
  \<^verbatim>\<open>process_song_verdicts\<close>: one iteration of the loop is \<open>route_song\<close>. The body of
  the \<^verbatim>\<open>try\<close> is \<open>route_song_try\<close>; the handler only prints, so an exception leaves the
  counters and the filesystem as they were when it was raised.
\<close>

definition route_song_try ::
  "string \<Rightarrow> review \<Rightarrow> verdict_counts \<times> filesystem \<Rightarrow> exn + verdict_counts \<times> filesystem" where
  "route_song_try final_dir result st =
     (case st of (c, fs) \<Rightarrow>
        if verdict result = PStr ''continue'' then
          let filename = basename (file_path result);
              final_path = os_path_join final_dir filename
          in if os_path_exists fs (file_path result) then
               (case shutil_move fs (file_path result) final_path of
                  Inl e \<Rightarrow> Inl e
                | Inr fs' \<Rightarrow> Inr (c\<lparr>kept_count := kept_count c + 1\<rparr>, fs'))
             else Inr (c, fs)
        else if verdict result = PStr ''re-roll'' then
          if os_path_exists fs (file_path result) then
            (case os_remove fs (file_path result) of
               Inl e \<Rightarrow> Inl e
             | Inr fs' \<Rightarrow> Inr (c\<lparr>deleted_count := deleted_count c + 1\<rparr>, fs'))
          else Inr (c, fs)
        else Inr (c, fs))"

definition route_song ::
  "string \<Rightarrow> review \<Rightarrow> verdict_counts \<times> filesystem \<Rightarrow> verdict_counts \<times> filesystem" where
  "route_song final_dir result st =
     (case route_song_try final_dir result st of Inr st' \<Rightarrow> st' | Inl e \<Rightarrow> st)"

fun route_songs ::
  "string \<Rightarrow> review list \<Rightarrow> verdict_counts \<times> filesystem \<Rightarrow> verdict_counts \<times> filesystem" where
  "route_songs final_dir [] st = st"
| "route_songs final_dir (result # rest) st = route_songs final_dir rest (route_song final_dir result st)"

definition process_song_verdicts ::
  "review list \<Rightarrow> string \<Rightarrow> filesystem \<Rightarrow> verdict_counts \<times> filesystem" where
  "process_song_verdicts review_results final_dir fs =
     route_songs final_dir review_results (\<lparr>kept_count = 0, deleted_count = 0\<rparr>, fs)"


section \<open>The verdict router, final-attempt mode\<close>

text \<open>
  \<^verbatim>\<open>process_song_verdicts_final_attempt\<close>: \<^verbatim>\<open>"continue"\<close> moves as before; a
  \<^verbatim>\<open>"re-roll"\<close> song that exists, and a song with any other verdict, is only counted as
  preserved.
\<close>

definition route_song_final_try ::
  "string \<Rightarrow> review \<Rightarrow> final_verdict_counts \<times> filesystem \<Rightarrow> exn + final_verdict_counts \<times> filesystem" where
  "route_song_final_try final_dir result st =
     (case st of (c, fs) \<Rightarrow>
        if verdict result = PStr ''continue'' then
          let filename = basename (file_path result);
              final_path = os_path_join final_dir filename
          in if os_path_exists fs (file_path result) then
               (case shutil_move fs (file_path result) final_path of
                  Inl e \<Rightarrow> Inl e
                | Inr fs' \<Rightarrow> Inr (c\<lparr>kept_count := kept_count c + 1\<rparr>, fs'))
             else Inr (c, fs)
        else if verdict result = PStr ''re-roll'' then
          if os_path_exists fs (file_path result) then
            Inr (c\<lparr>preserved_count := preserved_count c + 1\<rparr>, fs)
          else Inr (c, fs)
        else Inr (c\<lparr>preserved_count := preserved_count c + 1\<rparr>, fs))"

definition route_song_final ::
  "string \<Rightarrow> review \<Rightarrow> final_verdict_counts \<times> filesystem \<Rightarrow> final_verdict_counts \<times> filesystem" where
  "route_song_final final_dir result st =
     (case route_song_final_try final_dir result st of Inr st' \<Rightarrow> st' | Inl e \<Rightarrow> st)"

fun route_songs_final ::
  "string \<Rightarrow> review list \<Rightarrow> final_verdict_counts \<times> filesystem \<Rightarrow> final_verdict_counts \<times> filesystem" where
  "route_songs_final final_dir [] st = st"
| "route_songs_final final_dir (result # rest) st =
     route_songs_final final_dir rest (route_song_final final_dir result st)"

definition process_song_verdicts_final_attempt ::
  "review list \<Rightarrow> string \<Rightarrow> filesystem \<Rightarrow> final_verdict_counts \<times> filesystem" where
  "process_song_verdicts_final_attempt review_results final_dir fs =
     route_songs_final final_dir review_results
       (\<lparr>kept_count = 0, deleted_count = 0, preserved_count = 0\<rparr>, fs)"


section \<open>The fail-safe handler\<close>

definition verify_final_destination_folder :: string where
  "verify_final_destination_folder = ''backend/songs/final_review''"

text \<open>
  \<^verbatim>\<open>handle_failsafe_songs\<close>: \<open>failsafe_path\<close> is the destination the loop body computes,
  \<open>failsafe_song\<close> one iteration. Here the handler counts the exception as an error.
\<close>

definition failsafe_filename :: "string \<Rightarrow> string" where
  "failsafe_filename p =
     (let original_filename = basename p;
          (name_part, ext) = splitext original_filename
      in name_part @ ''_FAILSAFE'' @ ext)"

definition failsafe_path :: "string \<Rightarrow> string \<Rightarrow> string" where
  "failsafe_path final_dir p = os_path_join final_dir (failsafe_filename p)"

definition failsafe_song_try ::
  "string \<Rightarrow> song \<Rightarrow> failsafe_counts \<times> filesystem \<Rightarrow> exn + failsafe_counts \<times> filesystem" where
  "failsafe_song_try final_dir song st =
     (case st of (c, fs) \<Rightarrow>
        if os_path_exists fs (file_path song) then
          (case shutil_move fs (file_path song) (failsafe_path final_dir (file_path song)) of
             Inl e \<Rightarrow> Inl e
           | Inr fs' \<Rightarrow> Inr (c\<lparr>moved_count := moved_count c + 1\<rparr>, fs'))
        else Inr (c\<lparr>error_count := error_count c + 1\<rparr>, fs))"

definition failsafe_song ::
  "string \<Rightarrow> song \<Rightarrow> failsafe_counts \<times> filesystem \<Rightarrow> failsafe_counts \<times> filesystem" where
  "failsafe_song final_dir song st =
     (case failsafe_song_try final_dir song st of
        Inr st' \<Rightarrow> st'
      | Inl e \<Rightarrow> (case st of (c, fs) \<Rightarrow> (c\<lparr>error_count := error_count c + 1\<rparr>, fs)))"

fun failsafe_songs ::
  "string \<Rightarrow> song list \<Rightarrow> failsafe_counts \<times> filesystem \<Rightarrow> failsafe_counts \<times> filesystem" where
  "failsafe_songs final_dir [] st = st"
| "failsafe_songs final_dir (song # rest) st =
     failsafe_songs final_dir rest (failsafe_song final_dir song st)"

definition handle_failsafe_songs ::
  "song list \<Rightarrow> string \<Rightarrow> filesystem \<Rightarrow> failsafe_counts \<times> filesystem" where
  "handle_failsafe_songs final_attempt_songs final_dir fs =
     failsafe_songs final_dir final_attempt_songs (\<lparr>moved_count = 0, error_count = 0\<rparr>, fs)"


section \<open>Text formatting\<close>

text \<open>
  \<^verbatim>\<open>str(n)\<close> for a natural number, as the f-strings of the source print it, and the
  UTF-8 bytes of the musical-score sign (U+1F3BC) that opens every message.
\<close>

function str_nat :: "nat \<Rightarrow> string" where
  "str_nat n =
     (if n < 10 then [''0123456789'' ! n]
      else str_nat (n div 10) @ [''0123456789'' ! (n mod 10)])"
  by pat_completeness auto
termination
  by (relation "measure id") auto

declare str_nat.simps [simp del]

definition score_sign :: string where
  "score_sign = [CHR 0xF0, CHR 0x9F, CHR 0x8E, CHR 0xBC]"

text \<open>Python truthiness of a value.\<close>

fun truthy :: "pyval \<Rightarrow> bool" where
  "truthy PNone = False"
| "truthy (PBool b) = b"
| "truthy (PInt i) = (i \<noteq> 0)"
| "truthy (PStr s) = (s \<noteq> [])"


section \<open>The generation adapter\<close>

text \<open>
  \<^verbatim>\<open>generate_song_handler\<close>, \<^verbatim>\<open>download_song_handler\<close> and
  \<^verbatim>\<open>review_song_endpoint\<close> live in other modules. Each is a parameter here: a function
  of its arguments and of the world \<open>'w\<close> it acts on, which either raises or returns a
  value, and leaves a new world.
\<close>

datatype handler_result = Not_a_dict pyval | Dict "(string \<times> pyval) list"

datatype generation_result = Generated handler_result | Generation_failed string

definition generate_songs ::
  "(string \<Rightarrow> int \<Rightarrow> string \<Rightarrow> string \<Rightarrow> string \<Rightarrow> 'w \<Rightarrow> (exn + handler_result) \<times> 'w) \<Rightarrow>
   string \<Rightarrow> int \<Rightarrow> string \<Rightarrow> string \<Rightarrow> string \<Rightarrow> 'w \<Rightarrow> generation_result \<times> 'w" where
  "generate_songs generate_song_handler book_name chapter verse_range style title' w =
     (case generate_song_handler book_name chapter verse_range style title' w of
        (Inr result, w') \<Rightarrow>
          (case result of
             Dict d \<Rightarrow>
               if d \<noteq> [] \<and> truthy (dict_get d ''success'' PNone)
               then (Generated result, w')
               else (Generation_failed ''Song generation returned invalid result'', w')
           | Not_a_dict v \<Rightarrow> (Generation_failed ''Song generation returned invalid result'', w'))
      | (Inl e, w') \<Rightarrow> (Generation_failed (''Song generation failed: '' @ str_exn e), w'))"


section \<open>The retrieval adapter\<close>

text \<open>
  The dict a fetch returns carries \<^verbatim>\<open>"success"\<close> and, when that is true, normally
  \<^verbatim>\<open>"file_path"\<close>; \<open>None\<close> is the key missing, which makes the subscript raise
  \<^verbatim>\<open>KeyError\<close>.
\<close>

record download_response =
  dl_success :: bool
  dl_file_path :: "string option"
  dl_error :: "string option"

datatype download_results = Downloaded "song list" string | Download_failed string



definition staged_song :: "download_response \<Rightarrow> int \<Rightarrow> string \<Rightarrow> exn + song list" where
  "staged_song download idx title' =
     (if dl_success download then
        (case dl_file_path download of
           None \<Rightarrow> Inl (Exception (CHR 0x27 # ''file_path'' @ [CHR 0x27]))
         | Some p \<Rightarrow> Inr [\<lparr>file_path = p, index = idx, title = title'\<rparr>])
      else Inr [])"

definition download_both_songs_try ::
  "(string \<Rightarrow> int \<Rightarrow> string \<Rightarrow> 'w \<Rightarrow> (exn + download_response) \<times> 'w) \<Rightarrow>
   string \<Rightarrow> string \<Rightarrow> 'w \<Rightarrow> (exn + song list) \<times> 'w" where
  "download_both_songs_try download_song_handler title' temp_dir w =
     (case download_song_handler title' (- 1) temp_dir w of
        (Inl e, w1) \<Rightarrow> (Inl e, w1)
      | (Inr download_1, w1) \<Rightarrow>
          (case staged_song download_1 (- 1) title' of
             Inl e \<Rightarrow> (Inl e, w1)
           | Inr first \<Rightarrow>
               (case download_song_handler title' (- 2) temp_dir w1 of
                  (Inl e, w2) \<Rightarrow> (Inl e, w2)
                | (Inr download_2, w2) \<Rightarrow>
                    (case staged_song download_2 (- 2) title' of
                       Inl e \<Rightarrow> (Inl e, w2)
                     | Inr second \<Rightarrow> (Inr (first @ second), w2)))))"

definition download_both_songs ::
  "(string \<Rightarrow> int \<Rightarrow> string \<Rightarrow> 'w \<Rightarrow> (exn + download_response) \<times> 'w) \<Rightarrow>
   string \<Rightarrow> string \<Rightarrow> 'w \<Rightarrow> download_results \<times> 'w" where
  "download_both_songs download_song_handler title' temp_dir w =
     (case download_both_songs_try download_song_handler title' temp_dir w of
        (Inr downloaded_songs, w') \<Rightarrow>
          if length downloaded_songs = 0 then (Download_failed ''Failed to download any songs'', w')
          else (Downloaded downloaded_songs
                  (''Downloaded '' @ str_nat (length downloaded_songs) @ '' of 2 songs''), w')
      | (Inl e, w') \<Rightarrow> (Download_failed (''Download process failed: '' @ str_exn e), w'))"


section \<open>The review adapter\<close>

record review_response =
  rv_success :: pyval
  rv_verdict :: pyval
  rv_first_response :: pyval
  rv_second_response :: pyval
  rv_error :: pyval
  rv_audio_file :: pyval

text \<open>
  \<^verbatim>\<open>call_review_api\<close> passes \<^verbatim>\<open>song_structure_id or 0\<close> and turns every exception
  of the call into a dict with verdict \<^verbatim>\<open>"error"\<close>.
\<close>

definition call_review_api ::
  "(string \<Rightarrow> int \<Rightarrow> 'w \<Rightarrow> (exn + review_response) \<times> 'w) \<Rightarrow>
   string \<Rightarrow> int option \<Rightarrow> 'w \<Rightarrow> (string \<times> pyval) list \<times> 'w" where
  "call_review_api review_song_endpoint file_path' song_structure_id w =
     (case review_song_endpoint file_path'
             (case song_structure_id of None \<Rightarrow> 0 | Some i \<Rightarrow> i) w of
        (Inr review_response, w') \<Rightarrow>
          ([(''success'', rv_success review_response),
            (''verdict'', rv_verdict review_response),
            (''first_response'', rv_first_response review_response),
            (''second_response'', rv_second_response review_response),
            (''error'', rv_error review_response),
            (''audio_file'', rv_audio_file review_response)], w')
      | (Inl e, w') \<Rightarrow>
          ([(''success'', PBool False),
            (''verdict'', PStr ''error''),
            (''error'', PStr (''AI review API call failed: '' @ str_exn e))], w'))"

text \<open>
  \<^verbatim>\<open>review_all_songs\<close> wraps its loop in a handler of its own. The call it makes in the
  loop is the parameter \<open>api\<close>, with a result that may be an exception, so that this handler
  is part of the model; \<open>review_api\<close> is \<^verbatim>\<open>call_review_api\<close> in that role.
\<close>

definition review_record :: "song \<Rightarrow> (string \<times> pyval) list \<Rightarrow> review" where
  "review_record song review_result =
     \<lparr>file_path = file_path song, index = index song, title = title song,
      verdict = dict_get review_result ''verdict'' (PStr ''error''),
      review_details = review_result\<rparr>"

definition error_record :: "exn \<Rightarrow> song \<Rightarrow> review" where
  "error_record e song =
     \<lparr>file_path = file_path song, index = index song, title = title song,
      verdict = PStr ''error'',
      review_details = [(''error'', PStr (str_exn e))]\<rparr>"

fun review_songs ::
  "(string \<Rightarrow> int option \<Rightarrow> 'w \<Rightarrow> (exn + (string \<times> pyval) list) \<times> 'w) \<Rightarrow>
   song list \<Rightarrow> int option \<Rightarrow> review list \<Rightarrow> 'w \<Rightarrow> (exn + review list) \<times> 'w" where
  "review_songs api [] song_structure_id review_results w = (Inr review_results, w)"
| "review_songs api (song # rest) song_structure_id review_results w =
     (case api (file_path song) song_structure_id w of
        (Inl e, w') \<Rightarrow> (Inl e, w')
      | (Inr review_result, w') \<Rightarrow>
          review_songs api rest song_structure_id
            (review_results @ [review_record song review_result]) w')"

definition review_all_songs ::
  "(string \<Rightarrow> int option \<Rightarrow> 'w \<Rightarrow> (exn + (string \<times> pyval) list) \<times> 'w) \<Rightarrow>
   song list \<Rightarrow> int option \<Rightarrow> 'w \<Rightarrow> review list \<times> 'w" where
  "review_all_songs api downloaded_songs song_structure_id w =
     (case review_songs api downloaded_songs song_structure_id [] w of
        (Inr review_results, w') \<Rightarrow> (review_results, w')
      | (Inl e, w') \<Rightarrow> (map (error_record e) downloaded_songs, w'))"

definition review_api ::
  "(string \<Rightarrow> int \<Rightarrow> 'w \<Rightarrow> (exn + review_response) \<times> 'w) \<Rightarrow>
   string \<Rightarrow> int option \<Rightarrow> 'w \<Rightarrow> (exn + (string \<times> pyval) list) \<times> 'w" where
  "review_api review_song_endpoint file_path' song_structure_id w =
     (case call_review_api review_song_endpoint file_path' song_structure_id w of
        (review_result, w') \<Rightarrow> (Inr review_result, w'))"


section \<open>The workflow orchestrator\<close>

subsection \<open>State and results\<close>

record attempt_record =
  attempt_number :: nat
  generation_success :: bool
  downloads :: "song list"
  reviews :: "review list"
  final_action :: "string option"

record workflow_stats =
  attempts :: "attempt_record list"
  total_songs_generated :: nat
  total_songs_reviewed :: nat
  songs_kept :: nat
  songs_deleted :: nat

text \<open>
  The dict \<^verbatim>\<open>execute_song_workflow\<close> returns: its key set differs between the return
  statements, so it is an association list, with the keys in the order of the source.
\<close>

datatype result_value = Val pyval | Details workflow_stats

type_synonym result = "(string \<times> result_value) list"

record request =
  book_name :: string
  chapter_number :: int
  verse_range :: string
  style :: string
  song_title :: string
  song_structure_id :: "int option"

text \<open>
  The functions \<^verbatim>\<open>execute_song_workflow\<close> calls: \<^verbatim>\<open>os.makedirs\<close> before the loop,
  the steps of an attempt, with \<^verbatim>\<open>asyncio.sleep\<close> among them, and the fail-safe handler
  after the loop. Any of them may raise, an instance of \<^verbatim>\<open>Exception\<close> or not; so each
  call is given a result that is what it raised or a value, together with the world it
  leaves. \<open>source_callees\<close> below supplies the functions of this module.
\<close>

record 'w callees =
  call_makedirs :: "string \<Rightarrow> 'w \<Rightarrow> (raised + unit) \<times> 'w"
  call_generate_songs ::
    "string \<Rightarrow> int \<Rightarrow> string \<Rightarrow> string \<Rightarrow> string \<Rightarrow> 'w \<Rightarrow> (raised + generation_result) \<times> 'w"
  call_sleep :: "nat \<Rightarrow> 'w \<Rightarrow> (raised + unit) \<times> 'w"
  call_download_both_songs :: "string \<Rightarrow> string \<Rightarrow> 'w \<Rightarrow> (raised + download_results) \<times> 'w"
  call_review_all_songs :: "song list \<Rightarrow> int option \<Rightarrow> 'w \<Rightarrow> (raised + review list) \<times> 'w"
  call_process_song_verdicts :: "review list \<Rightarrow> string \<Rightarrow> 'w \<Rightarrow> (raised + verdict_counts) \<times> 'w"
  call_process_song_verdicts_final_attempt ::
    "review list \<Rightarrow> string \<Rightarrow> 'w \<Rightarrow> (raised + final_verdict_counts) \<times> 'w"
  call_handle_failsafe_songs :: "song list \<Rightarrow> string \<Rightarrow> 'w \<Rightarrow> (raised + failsafe_counts) \<times> 'w"

text \<open>
  The run state: the world the callees act on, the local variables of the function that
  outlive an attempt, and the sequence of the calls made so far. An entry is appended
  when the call is made (\<open>Routed\<close> when the router has returned its kept-count,
  \<open>Caught\<close> when the handler of the attempt is entered, which happens for instances of
  \<^verbatim>\<open>Exception\<close> only).
\<close>

datatype event =
    Generation nat
  | Waiting nat
  | Retrieval nat
  | Reviewing nat "song list"
  | Routing nat bool "review list"
  | Routed nat nat
  | Caught nat exn
  | Failsafe "song list"

record 'w run_state =
  world :: 'w
  trace :: "event list"
  workflow_details :: workflow_stats
  final_attempt_songs :: "song list"

datatype 'r body_exit = Next_attempt | Return 'r

definition max_attempts :: nat where
  "max_attempts = 3"

definition log_event :: "event \<Rightarrow> 'w run_state \<Rightarrow> 'w run_state" where
  "log_event ev s = s\<lparr>trace := trace s @ [ev]\<rparr>"

definition record_attempt :: "attempt_record \<Rightarrow> 'w run_state \<Rightarrow> 'w run_state" where
  "record_attempt attempt_details s =
     s\<lparr>workflow_details :=
         (workflow_details s)\<lparr>attempts := attempts (workflow_details s) @ [attempt_details]\<rparr>\<rparr>"

definition success_result :: "nat \<Rightarrow> nat \<Rightarrow> nat \<Rightarrow> workflow_stats \<Rightarrow> result" where
  "success_result attempt kept deleted details =
     [(''success'', Val (PBool True)),
      (''message'', Val (PStr (score_sign @ '' Workflow completed successfully on attempt ''
                         @ str_nat attempt @ ''!''))),
      (''total_attempts'', Val (PInt (int attempt))),
      (''final_songs_count'', Val (PInt (int kept))),
      (''good_songs'', Val (PInt (int kept))),
      (''re_rolled_songs'', Val (PInt (int deleted))),
      (''workflow_details'', Details details)]"

definition fatal_result :: "nat \<Rightarrow> string \<Rightarrow> workflow_stats \<Rightarrow> result" where
  "fatal_result attempt error_msg details =
     [(''success'', Val (PBool False)),
      (''message'', Val (PStr (score_sign @ '' Workflow failed after '' @ str_nat max_attempts
                         @ '' attempts''))),
      (''total_attempts'', Val (PInt (int attempt))),
      (''final_songs_count'', Val (PInt 0)),
      (''error'', Val (PStr error_msg)),
      (''workflow_details'', Details details)]"

definition failsafe_result :: "nat \<Rightarrow> workflow_stats \<Rightarrow> result" where
  "failsafe_result failsafe_songs_moved details =
     [(''success'', Val (PBool True)),
      (''message'', Val (PStr (score_sign @ '' Max attempts ('' @ str_nat max_attempts
          @ '') reached. AI rejected all songs, but fail-safe activated: ''
          @ str_nat failsafe_songs_moved
          @ '' song(s) from final attempt moved to final_review as backup.''))),
      (''total_attempts'', Val (PInt (int max_attempts))),
      (''final_songs_count'', Val (PInt (int failsafe_songs_moved))),
      (''good_songs'', Val (PInt 0)),
      (''re_rolled_songs'', Val (PInt (int (songs_deleted details)))),
      (''workflow_details'', Details details)]"

definition exhausted_result :: "workflow_stats \<Rightarrow> result" where
  "exhausted_result details =
     [(''success'', Val (PBool True)),
      (''message'', Val (PStr (score_sign @ '' Max attempts ('' @ str_nat max_attempts
          @ '') reached. All generated songs were rejected by AI review. ''
          @ ''No songs were successfully downloaded in final attempt.''))),
      (''total_attempts'', Val (PInt (int max_attempts))),
      (''final_songs_count'', Val (PInt 0)),
      (''good_songs'', Val (PInt 0)),
      (''re_rolled_songs'', Val (PInt (int (songs_deleted details)))),
      (''workflow_details'', Details details)]"


subsection \<open>One attempt\<close>

text \<open>
  The body of the \<^verbatim>\<open>try\<close> block, last step first. A body either raises, and then hands
  on what was raised and \<^verbatim>\<open>attempt_details\<close> as they are at that moment, or it
  ends the iteration: by \<^verbatim>\<open>continue\<close> or by reaching the end of the block
  (\<open>Next_attempt\<close>), or by \<^verbatim>\<open>return\<close>.
\<close>

definition check_verdicts ::
  "nat \<Rightarrow> 'a verdict_counts_scheme \<Rightarrow> attempt_record \<Rightarrow> 'w run_state \<Rightarrow>
   result body_exit \<times> 'w run_state" where
  "check_verdicts attempt verdict_result attempt_details s =
     (let s1 = s\<lparr>workflow_details := (workflow_details s)
                 \<lparr>songs_kept := songs_kept (workflow_details s) + kept_count verdict_result,
                  songs_deleted := songs_deleted (workflow_details s) + deleted_count verdict_result\<rparr>\<rparr>
      in if kept_count verdict_result > 0 then
           let s2 = record_attempt
                      (attempt_details\<lparr>final_action := Some (''success: ''
                         @ str_nat (kept_count verdict_result) @ '' songs kept'')\<rparr>) s1
           in (Return (success_result attempt (kept_count verdict_result)
                         (deleted_count verdict_result) (workflow_details s2)), s2)
         else
           (Next_attempt,
            record_attempt
              (attempt_details\<lparr>final_action := Some (''all_songs_rejected: retrying_attempt_''
                 @ str_nat (attempt + 1))\<rparr>) s1))"

definition route_step ::
  "'w callees \<Rightarrow> string \<Rightarrow> nat \<Rightarrow> review list \<Rightarrow> attempt_record \<Rightarrow> 'w run_state \<Rightarrow>
   (raised \<times> attempt_record + result body_exit) \<times> 'w run_state" where
  "route_step cs final_dir attempt review_results attempt_details s =
     (let s1 = log_event (Routing attempt (attempt = max_attempts) review_results) s
      in if attempt = max_attempts then
           (case call_process_song_verdicts_final_attempt cs review_results final_dir (world s1) of
              (Inl e, w) \<Rightarrow> (Inl (e, attempt_details), s1\<lparr>world := w\<rparr>)
            | (Inr verdict_result, w) \<Rightarrow>
                (case check_verdicts attempt verdict_result attempt_details
                        (log_event (Routed attempt (kept_count verdict_result)) (s1\<lparr>world := w\<rparr>)) of
                   (exit, s2) \<Rightarrow> (Inr exit, s2)))
         else
           (case call_process_song_verdicts cs review_results final_dir (world s1) of
              (Inl e, w) \<Rightarrow> (Inl (e, attempt_details), s1\<lparr>world := w\<rparr>)
            | (Inr verdict_result, w) \<Rightarrow>
                (case check_verdicts attempt verdict_result attempt_details
                        (log_event (Routed attempt (kept_count verdict_result)) (s1\<lparr>world := w\<rparr>)) of
                   (exit, s2) \<Rightarrow> (Inr exit, s2))))"

definition review_step ::
  "'w callees \<Rightarrow> request \<Rightarrow> string \<Rightarrow> nat \<Rightarrow> song list \<Rightarrow> attempt_record \<Rightarrow> 'w run_state \<Rightarrow>
   (raised \<times> attempt_record + result body_exit) \<times> 'w run_state" where
  "review_step cs rq final_dir attempt downloaded_songs attempt_details s =
     (let s1 = (if attempt = max_attempts then s\<lparr>final_attempt_songs := downloaded_songs\<rparr> else s);
          s2 = log_event (Reviewing attempt downloaded_songs) s1
      in case call_review_all_songs cs downloaded_songs (song_structure_id rq) (world s2) of
           (Inl e, w) \<Rightarrow> (Inl (e, attempt_details), s2\<lparr>world := w\<rparr>)
         | (Inr review_results, w) \<Rightarrow>
             route_step cs final_dir attempt review_results
               (attempt_details\<lparr>reviews := review_results\<rparr>)
               (s2\<lparr>world := w,
                   workflow_details := (workflow_details s2)
                     \<lparr>total_songs_reviewed :=
                        total_songs_reviewed (workflow_details s2) + length review_results\<rparr>\<rparr>))"

definition download_step ::
  "'w callees \<Rightarrow> request \<Rightarrow> string \<Rightarrow> string \<Rightarrow> nat \<Rightarrow> attempt_record \<Rightarrow> 'w run_state \<Rightarrow>
   (raised \<times> attempt_record + result body_exit) \<times> 'w run_state" where
  "download_step cs rq temp_dir final_dir attempt attempt_details s =
     (let s1 = log_event (Retrieval attempt) s
      in case call_download_both_songs cs (song_title rq) temp_dir (world s1) of
           (Inl e, w) \<Rightarrow> (Inl (e, attempt_details), s1\<lparr>world := w\<rparr>)
         | (Inr download_results, w) \<Rightarrow>
             (case download_results of
                Download_failed err \<Rightarrow>
                  (Inr Next_attempt,
                   record_attempt
                     (attempt_details\<lparr>final_action := Some (''download_failed: '' @ err)\<rparr>)
                     (s1\<lparr>world := w\<rparr>))
              | Downloaded downloaded_songs msg \<Rightarrow>
                  review_step cs rq final_dir attempt downloaded_songs
                    (attempt_details\<lparr>downloads := downloaded_songs\<rparr>) (s1\<lparr>world := w\<rparr>)))"

definition wait_step ::
  "'w callees \<Rightarrow> request \<Rightarrow> string \<Rightarrow> string \<Rightarrow> nat \<Rightarrow> attempt_record \<Rightarrow> 'w run_state \<Rightarrow>
   (raised \<times> attempt_record + result body_exit) \<times> 'w run_state" where
  "wait_step cs rq temp_dir final_dir attempt attempt_details s =
     (let s1 = log_event (Waiting attempt) s
      in case call_sleep cs (3 * 60) (world s1) of
           (Inl e, w) \<Rightarrow> (Inl (e, attempt_details), s1\<lparr>world := w\<rparr>)
         | (Inr u, w) \<Rightarrow>
             download_step cs rq temp_dir final_dir attempt attempt_details (s1\<lparr>world := w\<rparr>))"

definition generation_step ::
  "'w callees \<Rightarrow> request \<Rightarrow> string \<Rightarrow> string \<Rightarrow> nat \<Rightarrow> attempt_record \<Rightarrow> 'w run_state \<Rightarrow>
   (raised \<times> attempt_record + result body_exit) \<times> 'w run_state" where
  "generation_step cs rq temp_dir final_dir attempt attempt_details s =
     (let s1 = log_event (Generation attempt) s
      in case call_generate_songs cs (book_name rq) (chapter_number rq) (verse_range rq) (style rq)
                (song_title rq) (world s1) of
           (Inl e, w) \<Rightarrow> (Inl (e, attempt_details), s1\<lparr>world := w\<rparr>)
         | (Inr generation_result, w) \<Rightarrow>
             (case generation_result of
                Generation_failed err \<Rightarrow>
                  (Inr Next_attempt,
                   record_attempt
                     (attempt_details\<lparr>final_action := Some (''generation_failed: '' @ err)\<rparr>)
                     (s1\<lparr>world := w\<rparr>))
              | Generated payload \<Rightarrow>
                  wait_step cs rq temp_dir final_dir attempt
                    (attempt_details\<lparr>generation_success := True\<rparr>)
                    (s1\<lparr>world := w,
                        workflow_details := (workflow_details s1)
                          \<lparr>total_songs_generated :=
                             total_songs_generated (workflow_details s1) + 2\<rparr>\<rparr>)))"

text \<open>
  One iteration of the loop: the \<^verbatim>\<open>try\<close> block and its handler, with the message
  the handler formats. The handler is \<^verbatim>\<open>except Exception\<close>: anything else that was
  raised leaves the iteration, and with it the function, as it is.
\<close>

definition critical_error :: "nat \<Rightarrow> exn \<Rightarrow> string" where
  "critical_error attempt e =
     ''Critical error on attempt '' @ str_nat attempt @ '': '' @ str_exn e"

definition run_attempt ::
  "'w callees \<Rightarrow> request \<Rightarrow> string \<Rightarrow> string \<Rightarrow> nat \<Rightarrow> 'w run_state \<Rightarrow>
   (raised + result body_exit) \<times> 'w run_state" where
  "run_attempt cs rq temp_dir final_dir attempt s =
     (case generation_step cs rq temp_dir final_dir attempt
             \<lparr>attempt_number = attempt, generation_success = False, downloads = [],
              reviews = [], final_action = None\<rparr> s of
        (Inr exit, s1) \<Rightarrow> (Inr exit, s1)
      | (Inl (Base_exception b, attempt_details), s1) \<Rightarrow> (Inl (Base_exception b), s1)
      | (Inl (Exc e, attempt_details), s1) \<Rightarrow>
          let error_msg = critical_error attempt e;
              s2 = record_attempt
                     (attempt_details\<lparr>final_action := Some (''exception: '' @ error_msg)\<rparr>)
                     (log_event (Caught attempt e) s1)
          in if attempt = max_attempts
             then (Inr (Return (fatal_result attempt error_msg (workflow_details s2))), s2)
             else (Inr Next_attempt, s2))"


subsection \<open>The loop and the fail-safe\<close>

fun attempts_loop ::
  "'w callees \<Rightarrow> request \<Rightarrow> string \<Rightarrow> string \<Rightarrow> nat list \<Rightarrow> 'w run_state \<Rightarrow>
   (raised + result option) \<times> 'w run_state" where
  "attempts_loop cs rq temp_dir final_dir [] s = (Inr None, s)"
| "attempts_loop cs rq temp_dir final_dir (attempt # rest) s =
     (case run_attempt cs rq temp_dir final_dir attempt s of
        (Inl x, s1) \<Rightarrow> (Inl x, s1)
      | (Inr (Return r), s1) \<Rightarrow> (Inr (Some r), s1)
      | (Inr Next_attempt, s1) \<Rightarrow> attempts_loop cs rq temp_dir final_dir rest s1)"

text \<open>
  The block after the loop. The call of the fail-safe handler is outside every
  \<^verbatim>\<open>try\<close>, so whatever it raises leaves the function.
\<close>

definition failsafe_step ::
  "'w callees \<Rightarrow> string \<Rightarrow> 'w run_state \<Rightarrow> (raised + result) \<times> 'w run_state" where
  "failsafe_step cs final_dir s =
     (if final_attempt_songs s \<noteq> [] then
        let s1 = log_event (Failsafe (final_attempt_songs s)) s
        in case call_handle_failsafe_songs cs (final_attempt_songs s) final_dir (world s1) of
             (Inl x, w) \<Rightarrow> (Inl x, s1\<lparr>world := w\<rparr>)
           | (Inr failsafe_res, w) \<Rightarrow>
               let failsafe_songs_moved = moved_count failsafe_res;
                   s2 = s1\<lparr>world := w,
                           workflow_details := (workflow_details s1)
                             \<lparr>songs_kept := songs_kept (workflow_details s1) + failsafe_songs_moved\<rparr>\<rparr>
               in if failsafe_songs_moved > 0
                  then (Inr (failsafe_result failsafe_songs_moved (workflow_details s2)), s2)
                  else (Inr (exhausted_result (workflow_details s2)), s2)
      else (Inr (exhausted_result (workflow_details s)), s))"

text \<open>
  \<^verbatim>\<open>execute_song_workflow\<close>. The two \<^verbatim>\<open>os.makedirs\<close> calls come first and are outside
  every \<^verbatim>\<open>try\<close>: what they raise leaves the function before the first attempt. Then
  the local variables are initialised (\<open>initial_state\<close>) and the loop runs over
  \<^verbatim>\<open>range(1, max_attempts + 1)\<close>.
\<close>

definition initial_state :: "'w \<Rightarrow> 'w run_state" where
  "initial_state w = \<lparr>world = w, trace = [],
     workflow_details = \<lparr>attempts = [], total_songs_generated = 0,
       total_songs_reviewed = 0, songs_kept = 0, songs_deleted = 0\<rparr>,
     final_attempt_songs = []\<rparr>"

definition workflow_loop ::
  "'w callees \<Rightarrow> request \<Rightarrow> string \<Rightarrow> string \<Rightarrow> 'w \<Rightarrow> (raised + result) \<times> 'w run_state" where
  "workflow_loop cs rq temp_dir final_dir w =
     (case attempts_loop cs rq temp_dir final_dir [1 ..< max_attempts + 1] (initial_state w) of
        (Inl x, s) \<Rightarrow> (Inl x, s)
      | (Inr (Some r), s) \<Rightarrow> (Inr r, s)
      | (Inr None, s) \<Rightarrow> failsafe_step cs final_dir s)"

definition execute_song_workflow ::
  "'w callees \<Rightarrow> request \<Rightarrow> 'w \<Rightarrow> (raised + result) \<times> 'w run_state" where
  "execute_song_workflow cs rq w =
     (let final_dir = verify_final_destination_folder;
          temp_dir = ''backend/songs/temp''
      in case call_makedirs cs temp_dir w of
           (Inl x, w1) \<Rightarrow> (Inl x, initial_state w1)
         | (Inr u, w1) \<Rightarrow>
             (case call_makedirs cs final_dir w1 of
                (Inl x, w2) \<Rightarrow> (Inl x, initial_state w2)
              | (Inr u', w2) \<Rightarrow> workflow_loop cs rq temp_dir final_dir w2))"


subsection \<open>The callees of this module\<close>

text \<open>
  The world of the source's own callees has the files of the two directories and whatever
  the external services keep. The adapters and the routers of the module let no instance
  of \<^verbatim>\<open>Exception\<close> out: each has a handler of its own around everything it calls.
  \<^verbatim>\<open>asyncio.sleep\<close> is external, like the three handlers the adapters call: it returns
  after the delay, or raises, \<^verbatim>\<open>asyncio.CancelledError\<close> when the task is cancelled
  meanwhile or an error of the event loop. \<^verbatim>\<open>os.makedirs\<close> acts on the files.
\<close>

record world_files =
  files :: filesystem

record 'w handlers =
  generate_song_handler ::
    "string \<Rightarrow> int \<Rightarrow> string \<Rightarrow> string \<Rightarrow> string \<Rightarrow> 'w \<Rightarrow> (exn + handler_result) \<times> 'w"
  download_song_handler :: "string \<Rightarrow> int \<Rightarrow> string \<Rightarrow> 'w \<Rightarrow> (exn + download_response) \<times> 'w"
  review_song_endpoint :: "string \<Rightarrow> int \<Rightarrow> 'w \<Rightarrow> (exn + review_response) \<times> 'w"
  asyncio_sleep :: "nat \<Rightarrow> 'w \<Rightarrow> (raised + unit) \<times> 'w"

definition returning :: "('w \<Rightarrow> 'a \<times> 'w) \<Rightarrow> 'w \<Rightarrow> (raised + 'a) \<times> 'w" where
  "returning f w = (case f w of (x, w') \<Rightarrow> (Inr x, w'))"

definition on_files ::
  "(filesystem \<Rightarrow> 'a \<times> filesystem) \<Rightarrow> 'b world_files_scheme \<Rightarrow> 'a \<times> 'b world_files_scheme" where
  "on_files f w = (case f (files w) of (x, fs) \<Rightarrow> (x, w\<lparr>files := fs\<rparr>))"

definition makedirs_on_files ::
  "string \<Rightarrow> 'b world_files_scheme \<Rightarrow> (raised + unit) \<times> 'b world_files_scheme" where
  "makedirs_on_files d w =
     (case os_makedirs (files w) d of
        Inl e \<Rightarrow> (Inl (Exc e), w)
      | Inr fs \<Rightarrow> (Inr (), w\<lparr>files := fs\<rparr>))"

definition source_callees :: "'b world_files_scheme handlers \<Rightarrow> 'b world_files_scheme callees" where
  "source_callees hs =
     \<lparr>call_makedirs = makedirs_on_files,
      call_generate_songs = (\<lambda>b c v st t. returning (generate_songs (generate_song_handler hs) b c v st t)),
      call_sleep = asyncio_sleep hs,
      call_download_both_songs = (\<lambda>t d. returning (download_both_songs (download_song_handler hs) t d)),
      call_review_all_songs =
        (\<lambda>songs sid. returning (review_all_songs (review_api (review_song_endpoint hs)) songs sid)),
      call_process_song_verdicts =
        (\<lambda>rs d. returning (on_files (process_song_verdicts rs d))),
      call_process_song_verdicts_final_attempt =
        (\<lambda>rs d. returning (on_files (process_song_verdicts_final_attempt rs d))),
      call_handle_failsafe_songs =
        (\<lambda>songs d. returning (on_files (handle_failsafe_songs songs d)))\<rparr>"



section \<open>Notions used in the statements\<close>

text \<open>
  The attempt an entry of the trace belongs to; the fail-safe comes after the last attempt.
\<close>

fun event_attempt :: "event \<Rightarrow> nat" where
  "event_attempt (Generation n) = n"
| "event_attempt (Waiting n) = n"
| "event_attempt (Retrieval n) = n"
| "event_attempt (Reviewing n songs) = n"
| "event_attempt (Routing n final rs) = n"
| "event_attempt (Routed n k) = n"
| "event_attempt (Caught n e) = n"
| "event_attempt (Failsafe songs) = Suc max_attempts"

text \<open>Example data: staged songs under a staging directory, with their reviews.\<close>

definition song_a :: song where
  "song_a = \<lparr>file_path = ''temp/a.mp3'', index = - 1, title = ''psalm''\<rparr>"

definition song_b :: song where
  "song_b = \<lparr>file_path = ''temp/b.mp3'', index = - 2, title = ''psalm''\<rparr>"

definition keep_a :: review where
  "keep_a = \<lparr>file_path = ''temp/a.mp3'', index = - 1, title = ''psalm'',
     verdict = PStr ''continue'', review_details = []\<rparr>"

definition reroll_b :: review where
  "reroll_b = \<lparr>file_path = ''temp/b.mp3'', index = - 2, title = ''psalm'',
     verdict = PStr ''re-roll'', review_details = []\<rparr>"

definition error_c :: review where
  "error_c = \<lparr>file_path = ''temp/c.mp3'', index = - 1, title = ''psalm'',
     verdict = PStr ''error'', review_details = []\<rparr>"

definition gone_d :: review where
  "gone_d = \<lparr>file_path = ''temp/d.mp3'', index = - 2, title = ''psalm'',
     verdict = PStr ''continue'', review_details = []\<rparr>"

text \<open>
  Three staged files with nothing refused; and two staged files in a filesystem that
  refuses to write \<^verbatim>\<open>a.mp3\<close> into the final directory and to change \<^verbatim>\<open>b.mp3\<close>.
\<close>

definition staged :: filesystem where
  "staged = \<lparr>paths = {''temp/a.mp3'', ''temp/b.mp3'', ''temp/c.mp3''}, denied = {}\<rparr>"

definition locked :: filesystem where
  "locked = \<lparr>paths = {''temp/a.mp3'', ''temp/b.mp3''},
     denied = {''final/a.mp3'', ''temp/b.mp3''}\<rparr>"

text \<open>
  For the fail-safe handler: one staged file, with nothing refused and with its fail-safe
  destination refused; and a candidate whose own path is the fail-safe destination of
  \<open>song_a\<close>, with both files present.
\<close>

definition staged_a :: filesystem where
  "staged_a = \<lparr>paths = {''temp/a.mp3''}, denied = {}\<rparr>"

definition locked_backup :: filesystem where
  "locked_backup = \<lparr>paths = {''temp/a.mp3''}, denied = {''final/a_FAILSAFE.mp3''}\<rparr>"

definition song_f :: song where
  "song_f = \<lparr>file_path = ''final/a_FAILSAFE.mp3'', index = - 2, title = ''psalm''\<rparr>"

definition crossed :: filesystem where
  "crossed = \<lparr>paths = {''final/a_FAILSAFE.mp3'', ''temp/a.mp3''}, denied = {}\<rparr>"


text \<open>The song a review record is about.\<close>

definition song_of :: "review \<Rightarrow> song" where
  "song_of r = \<lparr>file_path = file_path r, index = index r, title = title r\<rparr>"


subsection \<open>What an attempt and the loop leave behind\<close>

text \<open>
  Predicates on the part of the trace a step appends: \<open>calls_of n\<close> holds when every
  entry is a call of attempt \<open>n\<close> and none is a caught exception; \<open>unrouted\<close> when the
  router has not returned; \<open>routed_zero\<close> when it has returned only kept-counts of 0.
\<close>

definition calls_of :: "nat \<Rightarrow> event list \<Rightarrow> bool" where
  "calls_of n evs = (\<forall>ev \<in> set evs. event_attempt ev = n \<and> (\<forall>e. ev \<noteq> Caught n e))"

definition unrouted :: "event list \<Rightarrow> bool" where
  "unrouted evs = (\<forall>n k. Routed n k \<notin> set evs)"

definition routed_zero :: "event list \<Rightarrow> bool" where
  "routed_zero evs = (\<forall>n k. Routed n k \<in> set evs \<longrightarrow> k = 0)"


text \<open>
  The postcondition of a step of the \<^verbatim>\<open>try\<close> block of attempt \<open>n\<close>, started with trace
  \<open>tr\<close> and attempt history \<open>atts\<close>: what it appends to the trace and to the history in
  each of its three outcomes (something raised, the end of the iteration, a
  \<^verbatim>\<open>return\<close>).
\<close>

definition body_post ::
  "nat \<Rightarrow> event list \<Rightarrow> attempt_record list \<Rightarrow> (raised \<times> attempt_record + result body_exit) \<Rightarrow>
   'w run_state \<Rightarrow> bool" where
  "body_post n tr atts res s' =
     (\<exists>evs. trace s' = tr @ evs \<and> calls_of n evs \<and>
        (case res of
           Inl (e, ad) \<Rightarrow>
             unrouted evs \<and> attempts (workflow_details s') = atts \<and> attempt_number ad = n
         | Inr Next_attempt \<Rightarrow>
             routed_zero evs \<and>
             (\<exists>a. attempts (workflow_details s') = atts @ [a] \<and> attempt_number a = n)
         | Inr (Return r) \<Rightarrow>
             (\<exists>k d. 0 < k \<and> evs \<noteq> [] \<and> last evs = Routed n k \<and> unrouted (butlast evs) \<and>
                r = success_result n k d (workflow_details s')) \<and>
             (\<exists>a. attempts (workflow_details s') = atts @ [a] \<and> attempt_number a = n)))"


text \<open>
  The postcondition of one iteration that ends in its own code, handler included: the
  attempt opens with its generation call, appends exactly one record to the history, and
  ends in one of three ways: all songs rejected or a reported failure; a kept song and a
  \<^verbatim>\<open>return\<close>; a caught exception, which returns the fatal result on the last attempt
  only.
\<close>

definition attempt_post :: "nat \<Rightarrow> 'w run_state \<Rightarrow> result body_exit \<Rightarrow> 'w run_state \<Rightarrow> bool" where
  "attempt_post n s exit s' =
     (\<exists>evs a.
        trace s' = trace s @ Generation n # evs \<and>
        (\<forall>ev \<in> set evs. event_attempt ev = n) \<and>
        attempts (workflow_details s') = attempts (workflow_details s) @ [a] \<and>
        attempt_number a = n \<and>
        ((exit = Next_attempt \<and> routed_zero evs \<and> (\<forall>e. Caught n e \<notin> set evs))
         \<or> (\<exists>k d. 0 < k \<and> exit = Return (success_result n k d (workflow_details s')) \<and>
               evs \<noteq> [] \<and> last evs = Routed n k \<and> unrouted (butlast evs) \<and>
               (\<forall>e. Caught n e \<notin> set evs))
         \<or> (\<exists>e. exit = (if n = max_attempts
                          then Return (fatal_result n (critical_error n e) (workflow_details s'))
                          else Next_attempt) \<and>
               evs \<noteq> [] \<and> last evs = Caught n e \<and> (\<forall>e'. Caught n e' \<notin> set (butlast evs)) \<and>
               unrouted evs \<and>
               final_action a = Some (''exception: '' @ critical_error n e))))"


text \<open>
  The postcondition of the loop over the attempts \<open>a, ..., b - 1\<close> when nothing leaves
  it uncaught, with \<open>ro\<close> the result it returned, if any.
\<close>

definition loop_post :: "nat \<Rightarrow> nat \<Rightarrow> 'w run_state \<Rightarrow> result option \<Rightarrow> 'w run_state \<Rightarrow> bool" where
  "loop_post a b s ro s' =
     (\<exists>evs more.
        trace s' = trace s @ evs \<and>
        attempts (workflow_details s') = attempts (workflow_details s) @ more \<and>
        (\<forall>ev \<in> set evs. a \<le> event_attempt ev \<and> event_attempt ev < b) \<and>
        (a < b \<longrightarrow> Generation a \<in> set evs) \<and>
        (\<forall>n e. Caught n e \<in> set evs \<longrightarrow>
           (\<exists>att \<in> set more. attempt_number att = n \<and>
              final_action att = Some (''exception: '' @ critical_error n e))) \<and>
        (\<forall>n e. Caught n e \<in> set evs \<longrightarrow> n \<noteq> max_attempts \<longrightarrow> Suc n < b \<longrightarrow>
           Generation (Suc n) \<in> set evs) \<and>
        (case ro of
           None \<Rightarrow>
             routed_zero evs \<and> (\<forall>e. Caught max_attempts e \<notin> set evs) \<and>
             map attempt_number more = [a ..< b]
         | Some r \<Rightarrow>
             evs \<noteq> [] \<and>
             ((\<exists>n k d. 0 < k \<and> r = success_result n k d (workflow_details s') \<and>
                 last evs = Routed n k \<and> routed_zero (butlast evs) \<and>
                 (\<forall>ev \<in> set evs. event_attempt ev \<le> n) \<and>
                 (\<forall>e. Caught max_attempts e \<notin> set evs) \<and>
                 map attempt_number more = [a ..< Suc n])
              \<or> (\<exists>e. r = fatal_result max_attempts (critical_error max_attempts e)
                            (workflow_details s') \<and>
                    last evs = Caught max_attempts e \<and> routed_zero evs \<and>
                    (\<forall>e'. Caught max_attempts e' \<in> set evs \<longrightarrow> e' = e) \<and>
                    map attempt_number more = [a ..< Suc max_attempts]))))"


text \<open>
  \<open>raised_in_step cs rq x\<close>: one of the six callees of the \<^verbatim>\<open>try\<close> block raises \<open>x\<close>
  in some world, on arguments the workflow can pass for the request \<open>rq\<close>.
  \<open>raised_late cs rq d n songs x w\<close>: the review of \<open>songs\<close>, or the router of attempt
  \<open>n\<close> that follows it, raises \<open>x\<close> and leaves the world \<open>w\<close>.
\<close>

definition raised_in_step :: "'w callees \<Rightarrow> request \<Rightarrow> raised \<Rightarrow> bool" where
  "raised_in_step cs rq x =
     ((\<exists>w w'. call_generate_songs cs (book_name rq) (chapter_number rq) (verse_range rq)
                 (style rq) (song_title rq) w = (Inl x, w'))
      \<or> (\<exists>w w'. call_sleep cs (3 * 60) w = (Inl x, w'))
      \<or> (\<exists>d w w'. call_download_both_songs cs (song_title rq) d w = (Inl x, w'))
      \<or> (\<exists>songs w w'. call_review_all_songs cs songs (song_structure_id rq) w = (Inl x, w'))
      \<or> (\<exists>rs d w w'. call_process_song_verdicts cs rs d w = (Inl x, w'))
      \<or> (\<exists>rs d w w'. call_process_song_verdicts_final_attempt cs rs d w = (Inl x, w')))"

definition raised_late ::
  "'w callees \<Rightarrow> request \<Rightarrow> string \<Rightarrow> nat \<Rightarrow> song list \<Rightarrow> raised \<Rightarrow> 'w \<Rightarrow> bool" where
  "raised_late cs rq final_dir n songs x w' =
     ((\<exists>w. call_review_all_songs cs songs (song_structure_id rq) w = (Inl x, w'))
      \<or> (\<exists>rs w. if n = max_attempts
                  then call_process_song_verdicts_final_attempt cs rs final_dir w = (Inl x, w')
                  else call_process_song_verdicts cs rs final_dir w = (Inl x, w')))"



subsection \<open>Example services\<close>

text \<open>
  A review endpoint that times out on one of the two example songs and approves the
  other, and a review call that always raises.
\<close>

definition flaky_endpoint :: "string \<Rightarrow> int \<Rightarrow> unit \<Rightarrow> (exn + review_response) \<times> unit" where
  "flaky_endpoint p sid w =
     (if p = ''temp/b.mp3'' then (Inl (Exception ''timed out''), w)
      else (Inr \<lparr>rv_success = PBool True, rv_verdict = PStr ''continue'',
                 rv_first_response = PNone, rv_second_response = PNone, rv_error = PNone,
                 rv_audio_file = PStr p\<rparr>, w))"

definition broken_api :: "string \<Rightarrow> int option \<Rightarrow> unit \<Rightarrow> (exn + (string \<times> pyval) list) \<times> unit" where
  "broken_api p sid w = (Inl (Exception ''no review service''), w)"

text \<open>
  External handlers: a generation that reports success and one that reports failure; a
  review endpoint that rejects and one that approves every song; a wait that returns, one
  during which the task is cancelled, and one that raises a \<^verbatim>\<open>RuntimeError\<close>.
\<close>

definition generating ::
  "string \<Rightarrow> int \<Rightarrow> string \<Rightarrow> string \<Rightarrow> string \<Rightarrow> 'w \<Rightarrow> (exn + handler_result) \<times> 'w" where
  "generating b c v st t w = (Inr (Dict [(''success'', PBool True)]), w)"

definition declining ::
  "string \<Rightarrow> int \<Rightarrow> string \<Rightarrow> string \<Rightarrow> string \<Rightarrow> 'w \<Rightarrow> (exn + handler_result) \<times> 'w" where
  "declining b c v st t w = (Inr (Dict [(''success'', PBool False)]), w)"

definition rejecting :: "string \<Rightarrow> int \<Rightarrow> 'w \<Rightarrow> (exn + review_response) \<times> 'w" where
  "rejecting p sid w =
     (Inr \<lparr>rv_success = PBool True, rv_verdict = PStr ''re-roll'', rv_first_response = PNone,
           rv_second_response = PNone, rv_error = PNone, rv_audio_file = PStr p\<rparr>, w)"

definition approving :: "string \<Rightarrow> int \<Rightarrow> 'w \<Rightarrow> (exn + review_response) \<times> 'w" where
  "approving p sid w =
     (Inr \<lparr>rv_success = PBool True, rv_verdict = PStr ''continue'', rv_first_response = PNone,
           rv_second_response = PNone, rv_error = PNone, rv_audio_file = PStr p\<rparr>, w)"

definition sleeping :: "nat \<Rightarrow> 'w \<Rightarrow> (raised + unit) \<times> 'w" where
  "sleeping seconds w = (Inr (), w)"

definition cancelled :: "nat \<Rightarrow> 'w \<Rightarrow> (raised + unit) \<times> 'w" where
  "cancelled seconds w = (Inl (Base_exception ''CancelledError''), w)"

definition interrupted :: "nat \<Rightarrow> 'w \<Rightarrow> (raised + unit) \<times> 'w" where
  "interrupted seconds w = (Inl (Exc (Exception ''Event loop is closed'')), w)"

text \<open>
  Download handlers over the files. The first reports failure for position \<open>-1\<close> and
  stages \<^verbatim>\<open>b.mp3\<close> for position \<open>-2\<close>. The second raises for position \<open>-1\<close> and would
  stage \<^verbatim>\<open>b.mp3\<close> for position \<open>-2\<close>. The third stages \<^verbatim>\<open>a.mp3\<close> for position \<open>-1\<close>
  and raises for position \<open>-2\<close>.
\<close>

definition stage ::
  "string \<Rightarrow> 'b world_files_scheme \<Rightarrow> (exn + download_response) \<times> 'b world_files_scheme" where
  "stage p w =
     (Inr \<lparr>dl_success = True, dl_file_path = Some p, dl_error = None\<rparr>,
      w\<lparr>files := (files w)\<lparr>paths := insert p (paths (files w))\<rparr>\<rparr>)"

definition second_only ::
  "string \<Rightarrow> int \<Rightarrow> string \<Rightarrow> 'b world_files_scheme \<Rightarrow>
   (exn + download_response) \<times> 'b world_files_scheme" where
  "second_only t i d w =
     (if i = - 1
      then (Inr \<lparr>dl_success = False, dl_file_path = None, dl_error = Some ''not ready''\<rparr>, w)
      else stage (d @ ''/b.mp3'') w)"



text \<open>
  Sets of handlers, a request, two disks (nothing refused; the staging directory refused),
  and the state and the attempt record at the start of a first attempt.
\<close>

definition partial_handlers :: "world_files handlers" where
  "partial_handlers = \<lparr>generate_song_handler = generating, download_song_handler = second_only,
     review_song_endpoint = rejecting, asyncio_sleep = sleeping\<rparr>"

definition approving_handlers :: "world_files handlers" where
  "approving_handlers = \<lparr>generate_song_handler = generating, download_song_handler = second_only,
     review_song_endpoint = approving, asyncio_sleep = sleeping\<rparr>"

definition declining_handlers :: "world_files handlers" where
  "declining_handlers = \<lparr>generate_song_handler = declining, download_song_handler = second_only,
     review_song_endpoint = rejecting, asyncio_sleep = sleeping\<rparr>"

definition cancelled_handlers :: "world_files handlers" where
  "cancelled_handlers = \<lparr>generate_song_handler = generating, download_song_handler = second_only,
     review_song_endpoint = rejecting, asyncio_sleep = cancelled\<rparr>"

definition interrupted_handlers :: "world_files handlers" where
  "interrupted_handlers = \<lparr>generate_song_handler = generating, download_song_handler = second_only,
     review_song_endpoint = rejecting, asyncio_sleep = interrupted\<rparr>"

definition psalm_request :: request where
  "psalm_request = \<lparr>book_name = ''Psalms'', chapter_number = 23, verse_range = ''1-6'',
     style = ''folk'', song_title = ''psalm'', song_structure_id = None\<rparr>"

definition empty_disk :: world_files where
  "empty_disk = \<lparr>files = \<lparr>paths = {}, denied = {}\<rparr>\<rparr>"

definition readonly_disk :: world_files where
  "readonly_disk = \<lparr>files = \<lparr>paths = {}, denied = {''backend/songs/temp''}\<rparr>\<rparr>"

definition fresh_state :: "world_files run_state" where
  "fresh_state = initial_state empty_disk"


text \<open>
  The callees of the module with the rejecting review endpoint, except that the review step
  raises.
\<close>

definition unreviewed_callees :: "world_files callees" where
  "unreviewed_callees = (source_callees partial_handlers)
     \<lparr>call_review_all_songs := (\<lambda>songs sid w. (Inl (Exc (Exception ''review unavailable'')), w))\<rparr>"

text \<open>
  A world in which the generation service counts its calls, and a download that has
  nothing ready before the third generation. With the approving review endpoint the third
  attempt is the first to stage and review a song. In \<open>late_callees\<close> the final-attempt
  router does its work and then raises.
\<close>

record studio = world_files +
  generations :: nat

definition counting ::
  "string \<Rightarrow> int \<Rightarrow> string \<Rightarrow> string \<Rightarrow> string \<Rightarrow> studio \<Rightarrow> (exn + handler_result) \<times> studio" where
  "counting b c v st t w =
     (Inr (Dict [(''success'', PBool True)]), w\<lparr>generations := generations w + 1\<rparr>)"

definition third_time ::
  "string \<Rightarrow> int \<Rightarrow> string \<Rightarrow> studio \<Rightarrow> (exn + download_response) \<times> studio" where
  "third_time t i d w =
     (if generations w < 3
      then (Inr \<lparr>dl_success = False, dl_file_path = None, dl_error = Some ''not ready''\<rparr>, w)
      else second_only t i d w)"

definition late_handlers :: "studio handlers" where
  "late_handlers = \<lparr>generate_song_handler = counting, download_song_handler = third_time,
     review_song_endpoint = approving, asyncio_sleep = sleeping\<rparr>"

definition late_callees :: "studio callees" where
  "late_callees = (source_callees late_handlers)
     \<lparr>call_process_song_verdicts_final_attempt :=
        (\<lambda>rs d w. (Inl (Exc (Exception ''I/O operation on closed file'')),
                    snd (on_files (process_song_verdicts_final_attempt rs d) w)))\<rparr>"

definition empty_studio :: studio where
  "empty_studio = \<lparr>files = \<lparr>paths = {}, denied = {}\<rparr>, generations = 0\<rparr>"

text \<open>Runs of the workflow on the example request, from an empty staging directory.\<close>

definition approving_run :: "(raised + result) \<times> world_files run_state" where
  "approving_run =
     execute_song_workflow (source_callees approving_handlers) psalm_request empty_disk"

definition declining_run :: "(raised + result) \<times> world_files run_state" where
  "declining_run =
     execute_song_workflow (source_callees declining_handlers) psalm_request empty_disk"

definition cancelled_run :: "(raised + result) \<times> world_files run_state" where
  "cancelled_run =
     execute_song_workflow (source_callees cancelled_handlers) psalm_request empty_disk"


definition interrupted_run :: "(raised + result) \<times> world_files run_state" where
  "interrupted_run =
     execute_song_workflow (source_callees interrupted_handlers) psalm_request empty_disk"

definition unreviewed_run :: "(raised + result) \<times> world_files run_state" where
  "unreviewed_run = execute_song_workflow unreviewed_callees psalm_request empty_disk"




section \<open>Properties of the verdict router\<close>

lemmas example_defs =
  keep_a_def reroll_b_def error_c_def gone_d_def staged_def song_a_def song_b_def locked_def
  staged_a_def locked_backup_def song_f_def crossed_def

lemma route_songs_append:
  "route_songs d (rs @ [r]) st = route_song d r (route_songs d rs st)"
  by (induction rs arbitrary: st) simp_all

lemma route_song_cases:
  "route_song d r (c, fs) =
     (if file_path r \<in> paths fs \<and> verdict r = PStr ''continue'' \<and>
         file_path r \<notin> denied fs \<and> os_path_join d (basename (file_path r)) \<notin> denied fs
        then (c\<lparr>kept_count := kept_count c + 1\<rparr>,
              fs\<lparr>paths := insert (os_path_join d (basename (file_path r)))
                              (paths fs - {file_path r})\<rparr>)
      else if file_path r \<in> paths fs \<and> verdict r = PStr ''re-roll'' \<and> file_path r \<notin> denied fs
        then (c\<lparr>deleted_count := deleted_count c + 1\<rparr>, fs\<lparr>paths := paths fs - {file_path r}\<rparr>)
      else (c, fs))"
  by (simp add: route_song_def route_song_try_def os_path_exists_def shutil_move_def
      os_remove_def Let_def)

text \<open>
  C4, amended. Normal mode, one artifact \<open>r\<close> routed after any artifacts \<open>rs\<close>:
  \<open>(c, fs1)\<close> are the counters and the files when its turn comes, \<open>(c', fs')\<close> right after
  it, and \<open>final_path\<close> is its place in final storage. With verdict \<^verbatim>\<open>continue\<close>, the
  staging file present (at a path other than its final one) and a move that succeeds, the
  file is afterwards in final storage and not in staging and only the kept-count grows, by
  one. With verdict \<^verbatim>\<open>re-roll\<close>, the file present and a removal that succeeds, the file is
  gone, nothing is put into final storage and only the deleted-count grows, by one. When
  the move or the removal raises, the handler swallows the exception: the file stays in
  staging and no counter changes. With any other verdict, and whenever the staging path
  does not exist, files and counters stay as they are. The router is a total function, so
  nothing is raised.
\<close>

theorem process_song_verdicts_routing:
  assumes before: "process_song_verdicts rs final_dir fs = (c, fs1)"
    and after: "process_song_verdicts (rs @ [r]) final_dir fs = (c', fs')"
    and final_path: "final_path = os_path_join final_dir (basename (file_path r))"
  shows "(verdict r = PStr ''continue'' \<and> file_path r \<in> paths fs1 \<and> file_path r \<noteq> final_path \<and>
          (\<exists>fs2. shutil_move fs1 (file_path r) final_path = Inr fs2) \<longrightarrow>
           final_path \<in> paths fs' \<and> file_path r \<notin> paths fs' \<and>
           kept_count c' = kept_count c + 1 \<and> deleted_count c' = deleted_count c)
       \<and> (verdict r = PStr ''continue'' \<and>
          (\<exists>e. shutil_move fs1 (file_path r) final_path = Inl e) \<longrightarrow>
           fs' = fs1 \<and> c' = c)
       \<and> (verdict r = PStr ''re-roll'' \<and> file_path r \<in> paths fs1 \<and>
          (\<exists>fs2. os_remove fs1 (file_path r) = Inr fs2) \<longrightarrow>
           file_path r \<notin> paths fs' \<and> (final_path \<notin> paths fs1 \<longrightarrow> final_path \<notin> paths fs') \<and>
           paths fs' = paths fs1 - {file_path r} \<and>
           deleted_count c' = deleted_count c + 1 \<and> kept_count c' = kept_count c)
       \<and> (verdict r = PStr ''re-roll'' \<and> (\<exists>e. os_remove fs1 (file_path r) = Inl e) \<longrightarrow>
           fs' = fs1 \<and> c' = c)
       \<and> (verdict r \<noteq> PStr ''continue'' \<and> verdict r \<noteq> PStr ''re-roll'' \<longrightarrow>
           fs' = fs1 \<and> c' = c)
       \<and> (file_path r \<notin> paths fs1 \<longrightarrow> fs' = fs1 \<and> c' = c)"
proof -
  have step: "(c', fs') = route_song final_dir r (c, fs1)"
    using before after by (simp add: process_song_verdicts_def route_songs_append)
  show ?thesis
    using step final_path
    by (auto simp: route_song_cases shutil_move_def os_remove_def split: if_splits)
qed

text \<open>
  The three staged files with nothing refused: \<^verbatim>\<open>a.mp3\<close> is kept, \<^verbatim>\<open>b.mp3\<close> deleted,
  \<^verbatim>\<open>c.mp3\<close> (verdict \<^verbatim>\<open>error\<close>) and the missing \<^verbatim>\<open>d.mp3\<close> change nothing. In the
  filesystem that refuses, the move of \<^verbatim>\<open>a.mp3\<close> raises and changes nothing.
\<close>

theorem process_song_verdicts_routing_witness:
  "(''final/a.mp3'' \<in> paths (snd (process_song_verdicts [keep_a] ''final'' staged))
    \<and> ''temp/a.mp3'' \<notin> paths (snd (process_song_verdicts [keep_a] ''final'' staged))
    \<and> fst (process_song_verdicts [keep_a] ''final'' staged) = \<lparr>kept_count = 1, deleted_count = 0\<rparr>)
   \<and> (''temp/b.mp3'' \<notin> paths (snd (process_song_verdicts [keep_a, reroll_b] ''final'' staged))
    \<and> ''final/b.mp3'' \<notin> paths (snd (process_song_verdicts [keep_a, reroll_b] ''final'' staged))
    \<and> fst (process_song_verdicts [keep_a, reroll_b] ''final'' staged) = \<lparr>kept_count = 1, deleted_count = 1\<rparr>)
   \<and> process_song_verdicts [keep_a, reroll_b, error_c] ''final'' staged
       = process_song_verdicts [keep_a, reroll_b] ''final'' staged
   \<and> process_song_verdicts [keep_a, reroll_b, error_c, gone_d] ''final'' staged
       = process_song_verdicts [keep_a, reroll_b, error_c] ''final'' staged
   \<and> process_song_verdicts [keep_a] ''final'' locked = process_song_verdicts [] ''final'' locked"
proof -
  let ?run = "\<lambda>rs. process_song_verdicts rs ''final'' staged"
  let ?lrun = "\<lambda>rs. process_song_verdicts rs ''final'' locked"
  have pair: "\<And>rs. ?run rs = (fst (?run rs), snd (?run rs))" by simp
  have lpair: "\<And>rs. ?lrun rs = (fst (?lrun rs), snd (?lrun rs))" by simp
  have b0: "?run [] = (\<lparr>kept_count = 0, deleted_count = 0\<rparr>, staged)"
    by (simp add: process_song_verdicts_def)
  have l0: "?lrun [] = (\<lparr>kept_count = 0, deleted_count = 0\<rparr>, locked)"
    by (simp add: process_song_verdicts_def)
  have p1: "''final/a.mp3'' = os_path_join ''final'' (basename (file_path keep_a))"
    and p2: "''final/b.mp3'' = os_path_join ''final'' (basename (file_path reroll_b))"
    and p3: "''final/c.mp3'' = os_path_join ''final'' (basename (file_path error_c))"
    and p4: "''final/d.mp3'' = os_path_join ''final'' (basename (file_path gone_d))"
    by (simp_all add: example_defs os_path_join_def basename_def)
  have one: "''final/a.mp3'' \<in> paths (snd (?run [keep_a])) \<and> ''temp/a.mp3'' \<notin> paths (snd (?run [keep_a]))
    \<and> fst (?run [keep_a]) = \<lparr>kept_count = 1, deleted_count = 0\<rparr>"
    using process_song_verdicts_routing [OF b0 pair [of "[] @ [keep_a]"] p1]
    by (simp add: example_defs shutil_move_def)
  have fs1: "snd (?run [keep_a]) =
      \<lparr>paths = {''final/a.mp3'', ''temp/b.mp3'', ''temp/c.mp3''}, denied = {}\<rparr>"
    by (auto simp: process_song_verdicts_def route_song_cases example_defs os_path_join_def
        basename_def)
  have two: "''temp/b.mp3'' \<notin> paths (snd (?run [keep_a, reroll_b]))
    \<and> ''final/b.mp3'' \<notin> paths (snd (?run [keep_a, reroll_b]))
    \<and> fst (?run [keep_a, reroll_b]) = \<lparr>kept_count = 1, deleted_count = 1\<rparr>"
    using process_song_verdicts_routing [OF pair [of "[keep_a]"] pair [of "[keep_a] @ [reroll_b]"] p2]
      one fs1
    by (simp add: example_defs os_remove_def)
  have three: "?run [keep_a, reroll_b, error_c] = ?run [keep_a, reroll_b]"
    using process_song_verdicts_routing [OF pair [of "[keep_a, reroll_b]"]
        pair [of "[keep_a, reroll_b] @ [error_c]"] p3]
    by (simp add: example_defs prod_eq_iff)
  have fs3: "''temp/d.mp3'' \<notin> paths (snd (?run [keep_a, reroll_b, error_c]))"
    by (auto simp: process_song_verdicts_def route_song_cases example_defs os_path_join_def
        basename_def)
  have four: "?run [keep_a, reroll_b, error_c, gone_d] = ?run [keep_a, reroll_b, error_c]"
    using process_song_verdicts_routing [OF pair [of "[keep_a, reroll_b, error_c]"]
        pair [of "[keep_a, reroll_b, error_c] @ [gone_d]"] p4] fs3
    by (simp add: example_defs prod_eq_iff)
  have five: "?lrun [keep_a] = ?lrun []"
    using process_song_verdicts_routing [OF l0 lpair [of "[] @ [keep_a]"] p1] l0
    by (simp add: example_defs shutil_move_def prod_eq_iff)
  show ?thesis by (intro conjI one [THEN conjunct1] one [THEN conjunct2, THEN conjunct1]
      one [THEN conjunct2, THEN conjunct2] two [THEN conjunct1] two [THEN conjunct2, THEN conjunct1]
      two [THEN conjunct2, THEN conjunct2] three four five)
qed

text \<open>
  C4 as stated fails when the operating system refuses: \<^verbatim>\<open>a.mp3\<close> has verdict
  \<^verbatim>\<open>continue\<close> and exists in staging, yet after routing it is still in staging, it is not
  in final storage and the kept-count is 0; \<^verbatim>\<open>b.mp3\<close> has verdict \<^verbatim>\<open>re-roll\<close> and
  exists, yet it is still there and the deleted-count is 0.
\<close>

theorem refused_move_is_not_counted:
  "verdict keep_a = PStr ''continue'' \<and> file_path keep_a \<in> paths locked
   \<and> process_song_verdicts [keep_a] ''final'' locked
        = (\<lparr>kept_count = 0, deleted_count = 0\<rparr>, locked)
   \<and> ''temp/a.mp3'' \<in> paths (snd (process_song_verdicts [keep_a] ''final'' locked))
   \<and> ''final/a.mp3'' \<notin> paths (snd (process_song_verdicts [keep_a] ''final'' locked))
   \<and> verdict reroll_b = PStr ''re-roll'' \<and> file_path reroll_b \<in> paths locked
   \<and> process_song_verdicts [reroll_b] ''final'' locked
        = (\<lparr>kept_count = 0, deleted_count = 0\<rparr>, locked)
   \<and> ''temp/b.mp3'' \<in> paths (snd (process_song_verdicts [reroll_b] ''final'' locked))"
  by (simp add: process_song_verdicts_def route_song_cases example_defs os_path_join_def
      basename_def)

lemma route_songs_final_append:
  "route_songs_final d (rs @ [r]) st = route_song_final d r (route_songs_final d rs st)"
  by (induction rs arbitrary: st) simp_all

lemma route_song_final_cases:
  "route_song_final d r (c, fs) =
     (if verdict r = PStr ''continue'' then
        (if file_path r \<in> paths fs \<and> file_path r \<notin> denied fs \<and>
            os_path_join d (basename (file_path r)) \<notin> denied fs
         then (c\<lparr>kept_count := kept_count c + 1\<rparr>,
               fs\<lparr>paths := insert (os_path_join d (basename (file_path r)))
                               (paths fs - {file_path r})\<rparr>)
         else (c, fs))
      else if verdict r = PStr ''re-roll'' \<and> file_path r \<notin> paths fs then (c, fs)
      else (c\<lparr>preserved_count := preserved_count c + 1\<rparr>, fs))"
  by (simp add: route_song_final_def route_song_final_try_def os_path_exists_def shutil_move_def
      Let_def)

lemma route_song_final_deleted:
  "deleted_count (fst (route_song_final d r st)) = deleted_count (fst st)"
  by (cases st) (simp add: route_song_final_cases)

lemma route_songs_final_deleted:
  "deleted_count (fst (route_songs_final d rs st)) = deleted_count (fst st)"
  by (induction rs arbitrary: st) (simp_all add: route_song_final_deleted)

lemma route_song_final_keeps:
  "p \<in> paths (snd st) \<Longrightarrow>
   p \<in> paths (snd (route_song_final d r st)) \<or> (p = file_path r \<and> verdict r = PStr ''continue'')"
  by (cases st) (auto simp: route_song_final_cases)

lemma route_songs_final_keeps:
  "p \<in> paths (snd st) \<Longrightarrow>
   p \<in> paths (snd (route_songs_final d rs st)) \<or>
   (\<exists>r \<in> set rs. p = file_path r \<and> verdict r = PStr ''continue'')"
proof (induction rs arbitrary: st)
  case Nil
  then show ?case by simp
next
  case (Cons r rs)
  from route_song_final_keeps [OF Cons.prems, of d r]
  show ?case
  proof
    assume "p \<in> paths (snd (route_song_final d r st))"
    from Cons.IH [OF this] show ?thesis by auto
  next
    assume "p = file_path r \<and> verdict r = PStr ''continue''"
    then show ?thesis by auto
  qed
qed

text \<open>
  C2. Final-attempt mode, one artifact \<open>r\<close> routed after any artifacts \<open>rs\<close>, with
  \<open>(c, fs1)\<close> before its turn and \<open>(c', fs')\<close> after it. With any verdict other than
  \<^verbatim>\<open>continue\<close> the files are untouched; so with verdict \<^verbatim>\<open>re-roll\<close> or \<^verbatim>\<open>error\<close> a
  staging file that was there is still there, and it is counted as preserved. Nothing is
  deleted for any verdict: a path that was there and is gone is that of a \<^verbatim>\<open>continue\<close>
  artifact, whose file is then in final storage; over the whole batch, every file present
  at the start is still at its path unless a \<^verbatim>\<open>continue\<close> artifact of the batch has that
  path. The deleted-count is 0 at every point. All of this holds whether or not a move
  raises.
\<close>

theorem final_attempt_routing_preserves:
  assumes before: "process_song_verdicts_final_attempt rs final_dir fs = (c, fs1)"
    and after: "process_song_verdicts_final_attempt (rs @ [r]) final_dir fs = (c', fs')"
  shows "(verdict r \<noteq> PStr ''continue'' \<longrightarrow> fs' = fs1 \<and> kept_count c' = kept_count c)
       \<and> ((verdict r = PStr ''re-roll'' \<or> verdict r = PStr ''error'') \<and> file_path r \<in> paths fs1 \<longrightarrow>
            file_path r \<in> paths fs' \<and> preserved_count c' = preserved_count c + 1)
       \<and> (\<forall>p \<in> paths fs1. p \<in> paths fs' \<or>
            (p = file_path r \<and> verdict r = PStr ''continue'' \<and>
             os_path_join final_dir (basename p) \<in> paths fs'))
       \<and> (\<forall>p \<in> paths fs. p \<in> paths fs' \<or>
            (\<exists>x \<in> set (rs @ [r]). p = file_path x \<and> verdict x = PStr ''continue''))
       \<and> deleted_count c = 0 \<and> deleted_count c' = 0"
proof -
  let ?init = "(\<lparr>kept_count = 0, deleted_count = 0, preserved_count = 0\<rparr>, fs)"
  have step: "(c', fs') = route_song_final final_dir r (c, fs1)"
    using before after
    by (simp add: process_song_verdicts_final_attempt_def route_songs_final_append)
  have d0: "deleted_count c = 0" "deleted_count c' = 0"
    using route_songs_final_deleted [of final_dir rs ?init]
      route_songs_final_deleted [of final_dir "rs @ [r]" ?init] before after
    by (simp_all add: process_song_verdicts_final_attempt_def)
  have batch: "\<forall>p \<in> paths fs. p \<in> paths fs' \<or>
      (\<exists>x \<in> set (rs @ [r]). p = file_path x \<and> verdict x = PStr ''continue'')"
  proof
    fix p assume "p \<in> paths fs"
    then have "p \<in> paths (snd ?init)" by simp
    from route_songs_final_keeps [OF this, of final_dir "rs @ [r]"] after
    show "p \<in> paths fs' \<or> (\<exists>x \<in> set (rs @ [r]). p = file_path x \<and> verdict x = PStr ''continue'')"
      by (simp add: process_song_verdicts_final_attempt_def)
  qed
  have one: "verdict r \<noteq> PStr ''continue'' \<longrightarrow> fs' = fs1 \<and> kept_count c' = kept_count c"
    using step by (auto simp: route_song_final_cases split: if_splits)
  have two: "(verdict r = PStr ''re-roll'' \<or> verdict r = PStr ''error'') \<and> file_path r \<in> paths fs1 \<longrightarrow>
      file_path r \<in> paths fs' \<and> preserved_count c' = preserved_count c + 1"
    using step by (auto simp: route_song_final_cases split: if_splits)
  have three: "\<forall>p \<in> paths fs1. p \<in> paths fs' \<or>
      (p = file_path r \<and> verdict r = PStr ''continue'' \<and>
       os_path_join final_dir (basename p) \<in> paths fs')"
    using step by (auto simp: route_song_final_cases split: if_splits)
  show ?thesis by (intro conjI one two three batch d0)
qed

theorem final_attempt_routing_preserves_witness:
  "snd (process_song_verdicts_final_attempt [keep_a, reroll_b] ''final'' staged)
     = snd (process_song_verdicts_final_attempt [keep_a] ''final'' staged)
   \<and> ''temp/b.mp3'' \<in> paths (snd (process_song_verdicts_final_attempt [keep_a, reroll_b] ''final'' staged))
   \<and> ''temp/c.mp3'' \<in> paths (snd (process_song_verdicts_final_attempt [keep_a, reroll_b, error_c] ''final'' staged))
   \<and> deleted_count (fst (process_song_verdicts_final_attempt [keep_a, reroll_b, error_c] ''final'' staged)) = 0"
proof -
  let ?run = "\<lambda>rs. process_song_verdicts_final_attempt rs ''final'' staged"
  have pair: "\<And>rs. ?run rs = (fst (?run rs), snd (?run rs))" by simp
  have fs1: "snd (?run [keep_a]) =
      \<lparr>paths = {''final/a.mp3'', ''temp/b.mp3'', ''temp/c.mp3''}, denied = {}\<rparr>"
    by (auto simp: process_song_verdicts_final_attempt_def route_song_final_cases example_defs
        os_path_join_def basename_def)
  have one: "snd (?run [keep_a, reroll_b]) = snd (?run [keep_a])
      \<and> ''temp/b.mp3'' \<in> paths (snd (?run [keep_a, reroll_b]))"
    using final_attempt_routing_preserves [OF pair [of "[keep_a]"] pair [of "[keep_a] @ [reroll_b]"]] fs1
    by (simp add: example_defs)
  have two: "''temp/c.mp3'' \<in> paths (snd (?run [keep_a, reroll_b, error_c]))
      \<and> deleted_count (fst (?run [keep_a, reroll_b, error_c])) = 0"
    using final_attempt_routing_preserves [OF pair [of "[keep_a, reroll_b]"]
        pair [of "[keep_a, reroll_b] @ [error_c]"]] one fs1
    by (simp add: example_defs)
  show ?thesis using one two by blast
qed



section \<open>Properties of the fail-safe handler\<close>


lemma failsafe_song_cases:
  "failsafe_song d x (c, fs) =
     (if file_path x \<in> paths fs \<and> file_path x \<notin> denied fs \<and>
         failsafe_path d (file_path x) \<notin> denied fs
      then (c\<lparr>moved_count := moved_count c + 1\<rparr>,
            fs\<lparr>paths := insert (failsafe_path d (file_path x)) (paths fs - {file_path x})\<rparr>)
      else (c\<lparr>error_count := error_count c + 1\<rparr>, fs))"
  by (simp add: failsafe_song_def failsafe_song_try_def os_path_exists_def shutil_move_def)













section \<open>Properties of the review adapter\<close>

lemma review_songs_acc:
  "review_songs api songs sid acc w =
     (case review_songs api songs sid [] w of
        (Inl e, w') \<Rightarrow> (Inl e, w')
      | (Inr rs, w') \<Rightarrow> (Inr (acc @ rs), w'))"
proof (induction songs arbitrary: acc w)
  case Nil
  then show ?case by simp
next
  case (Cons s ss)
  show ?case
  proof (cases "api (file_path s) sid w")
    case (Pair r w1)
    show ?thesis
    proof (cases r)
      case (Inl e)
      with Pair show ?thesis by simp
    next
      case (Inr d)
      with Pair show ?thesis
        using Cons.IH [of "acc @ [review_record s d]" w1] Cons.IH [of "[review_record s d]" w1]
        by (simp split: prod.splits sum.splits)
    qed
  qed
qed

lemma review_songs_Cons:
  "review_songs api (s # ss) sid [] w =
     (case api (file_path s) sid w of
        (Inl e, w1) \<Rightarrow> (Inl e, w1)
      | (Inr d, w1) \<Rightarrow>
          (case review_songs api ss sid [] w1 of
             (Inl e, w2) \<Rightarrow> (Inl e, w2)
           | (Inr rs, w2) \<Rightarrow> (Inr (review_record s d # rs), w2)))"
  using review_songs_acc [of api ss sid "[review_record s _]"]
  by (simp split: prod.splits sum.splits)

declare review_songs.simps(2) [simp del]

lemma review_songs_order:
  "review_songs api songs sid [] w = (Inr rs, w') \<Longrightarrow> map song_of rs = songs"
proof (induction songs arbitrary: rs w)
  case Nil
  then show ?case by simp
next
  case (Cons s ss)
  from Cons.prems show ?case
    by (auto simp: review_songs_Cons review_record_def song_of_def
        split: prod.splits sum.splits dest: Cons.IH)
qed

lemma review_all_songs_order: "map song_of (fst (review_all_songs api songs sid w)) = songs"
proof (cases "review_songs api songs sid [] w")
  case (Pair r w')
  show ?thesis
  proof (cases r)
    case (Inl e)
    with Pair show ?thesis
      by (simp add: review_all_songs_def error_record_def song_of_def comp_def map_idI)
  next
    case (Inr rs)
    with Pair review_songs_order [of api songs sid w rs w'] show ?thesis
      by (simp add: review_all_songs_def)
  qed
qed

lemma review_all_songs_raise:
  "review_songs api songs sid [] w = (Inl e, w') \<Longrightarrow>
   review_all_songs api songs sid w = (map (error_record e) songs, w')"
  by (simp add: review_all_songs_def)

lemma review_api_result:
  "call_review_api ep p sid w = (d, w1) \<Longrightarrow> review_api ep p sid w = (Inr d, w1)"
  by (simp add: review_api_def)

lemma review_api_never_raises:
  "\<exists>rs w'. review_songs (review_api ep) songs sid [] w = (Inr rs, w')"
proof (induction songs arbitrary: w)
  case Nil
  then show ?case by simp
next
  case (Cons s ss)
  obtain d w1 where c: "call_review_api ep (file_path s) sid w = (d, w1)"
    by (cases "call_review_api ep (file_path s) sid w")
  from Cons [of w1] obtain rs w2 where
    r: "review_songs (review_api ep) ss sid [] w1 = (Inr rs, w2)" by blast
  show ?case
    by (subst review_songs_Cons) (simp add: review_api_result [OF c] r)
qed

lemma review_api_source:
  "review_all_songs (review_api ep) [] sid w = ([], w)"
  "review_all_songs (review_api ep) (s # ss) sid w =
     (case call_review_api ep (file_path s) sid w of
        (d, w1) \<Rightarrow>
          (case review_all_songs (review_api ep) ss sid w1 of
             (rs, w2) \<Rightarrow> (review_record s d # rs, w2)))"
proof -
  show "review_all_songs (review_api ep) [] sid w = ([], w)"
    by (simp add: review_all_songs_def)
  obtain d w1 where c: "call_review_api ep (file_path s) sid w = (d, w1)"
    by (cases "call_review_api ep (file_path s) sid w")
  from review_api_never_raises [of ep ss sid w1] obtain rs w2 where
    r: "review_songs (review_api ep) ss sid [] w1 = (Inr rs, w2)" by blast
  have l: "review_all_songs (review_api ep) (s # ss) sid w = (review_record s d # rs, w2)"
    unfolding review_all_songs_def
    by (subst review_songs_Cons) (simp add: review_api_result [OF c] r)
  have "review_all_songs (review_api ep) ss sid w1 = (rs, w2)"
    by (simp add: review_all_songs_def r)
  with l c show "review_all_songs (review_api ep) (s # ss) sid w =
     (case call_review_api ep (file_path s) sid w of
        (d, w1) \<Rightarrow>
          (case review_all_songs (review_api ep) ss sid w1 of
             (rs, w2) \<Rightarrow> (review_record s d # rs, w2)))"
    by simp
qed

lemma call_review_api_raise:
  "fst (ep p (case sid of None \<Rightarrow> 0 | Some i \<Rightarrow> i) w) = Inl e \<Longrightarrow>
   dict_get (fst (call_review_api ep p sid w)) ''verdict'' (PStr ''error'') = PStr ''error''"
  by (cases "ep p (case sid of None \<Rightarrow> 0 | Some i \<Rightarrow> i) w")
     (simp add: call_review_api_def dict_get_def)

lemma review_source_error_at:
  "i < length songs \<Longrightarrow>
   fst (ep (file_path (songs ! i)) (case sid of None \<Rightarrow> 0 | Some j \<Rightarrow> j)
          (snd (review_all_songs (review_api ep) (take i songs) sid w))) = Inl e \<Longrightarrow>
   verdict (fst (review_all_songs (review_api ep) songs sid w) ! i) = PStr ''error''"
proof (induction i arbitrary: songs w)
  case 0
  then obtain s ss where songs: "songs = s # ss" by (cases songs) auto
  with 0 have "fst (ep (file_path s) (case sid of None \<Rightarrow> 0 | Some j \<Rightarrow> j) w) = Inl e"
    by (simp add: review_api_source)
  from call_review_api_raise [of ep "file_path s" sid w e, OF this] show ?case
    by (cases "call_review_api ep (file_path s) sid w";
        cases "review_all_songs (review_api ep) ss sid (snd (call_review_api ep (file_path s) sid w))")
       (simp add: songs review_api_source review_record_def)
next
  case (Suc i)
  then obtain s ss where songs: "songs = s # ss" by (cases songs) auto
  obtain d w1 where c: "call_review_api ep (file_path s) sid w = (d, w1)"
    by (cases "call_review_api ep (file_path s) sid w")
  have "verdict (fst (review_all_songs (review_api ep) ss sid w1) ! i) = PStr ''error''"
    using Suc.prems songs c
    by (intro Suc.IH) (simp_all add: review_api_source split: prod.splits)
  then show ?case
    by (cases "review_all_songs (review_api ep) ss sid w1") (simp add: songs review_api_source c)
qed


text \<open>
  C6. \<^verbatim>\<open>review_all_songs\<close> is total and returns, for every list of downloaded songs and
  every behaviour of the call it makes, exactly one record per song, in the order of the
  songs, each carrying the path, index and title of its song. If the call made in the loop
  raises, the handler of \<^verbatim>\<open>review_all_songs\<close> absorbs the exception and every record has
  verdict \<^verbatim>\<open>error\<close>. With \<^verbatim>\<open>call_review_api\<close> in that role, as in the source, an
  exception of the review endpoint \<open>ep\<close> at song \<open>i\<close> is absorbed there and record \<open>i\<close>
  has verdict \<^verbatim>\<open>error\<close>.
\<close>

theorem review_all_songs_total:
  "map song_of (fst (review_all_songs api songs sid w)) = songs
   \<and> length (fst (review_all_songs api songs sid w)) = length songs
   \<and> (\<forall>e w'. review_songs api songs sid [] w = (Inl e, w') \<longrightarrow>
        (\<forall>r \<in> set (fst (review_all_songs api songs sid w)). verdict r = PStr ''error''))
   \<and> (\<forall>i e. i < length songs \<and>
        fst (ep (file_path (songs ! i)) (case sid of None \<Rightarrow> 0 | Some j \<Rightarrow> j)
              (snd (review_all_songs (review_api ep) (take i songs) sid v))) = Inl e \<longrightarrow>
        verdict (fst (review_all_songs (review_api ep) songs sid v) ! i) = PStr ''error'')"
proof -
  have order: "map song_of (fst (review_all_songs api songs sid w)) = songs"
    by (rule review_all_songs_order)
  have "length (map song_of (fst (review_all_songs api songs sid w))) = length songs"
    by (simp only: order)
  then have len: "length (fst (review_all_songs api songs sid w)) = length songs" by simp
  have raised: "\<forall>e w'. review_songs api songs sid [] w = (Inl e, w') \<longrightarrow>
        (\<forall>r \<in> set (fst (review_all_songs api songs sid w)). verdict r = PStr ''error'')"
  proof (intro allI impI)
    fix e w' assume "review_songs api songs sid [] w = (Inl e, w')"
    then have "fst (review_all_songs api songs sid w) = map (error_record e) songs"
      by (simp add: review_all_songs_def)
    then show "\<forall>r \<in> set (fst (review_all_songs api songs sid w)). verdict r = PStr ''error''"
      by (simp add: error_record_def)
  qed
  have at: "\<forall>i e. i < length songs \<and>
        fst (ep (file_path (songs ! i)) (case sid of None \<Rightarrow> 0 | Some j \<Rightarrow> j)
              (snd (review_all_songs (review_api ep) (take i songs) sid v))) = Inl e \<longrightarrow>
        verdict (fst (review_all_songs (review_api ep) songs sid v) ! i) = PStr ''error''"
  proof (intro allI impI, elim conjE)
    fix i e
    assume "i < length songs"
      and "fst (ep (file_path (songs ! i)) (case sid of None \<Rightarrow> 0 | Some j \<Rightarrow> j)
              (snd (review_all_songs (review_api ep) (take i songs) sid v))) = Inl e"
    then show "verdict (fst (review_all_songs (review_api ep) songs sid v) ! i) = PStr ''error''"
      by (rule review_source_error_at)
  qed
  show ?thesis by (intro conjI order len raised at)
qed


text \<open>
  Two songs, with an endpoint that times out on the second: the verdicts are
  \<^verbatim>\<open>continue\<close> and \<^verbatim>\<open>error\<close>, in the order of the songs. With a review call that
  raises, both verdicts are \<^verbatim>\<open>error\<close>.
\<close>

theorem review_all_songs_total_witness:
  "map verdict (fst (review_all_songs (review_api flaky_endpoint) [song_a, song_b] None ()))
     = [PStr ''continue'', PStr ''error'']
   \<and> map song_of (fst (review_all_songs (review_api flaky_endpoint) [song_a, song_b] None ()))
     = [song_a, song_b]
   \<and> map verdict (fst (review_all_songs broken_api [song_a, song_b] None ()))
     = [PStr ''error'', PStr ''error'']"
proof -
  let ?rs = "fst (review_all_songs (review_api flaky_endpoint) [song_a, song_b] None ())"
  let ?bs = "fst (review_all_songs broken_api [song_a, song_b] None ())"
  note inst = review_all_songs_total [of "review_api flaky_endpoint" "[song_a, song_b]" None "()"
      flaky_endpoint "()"]
  note inst_broken = review_all_songs_total [of broken_api "[song_a, song_b]" None "()"
      flaky_endpoint "()"]
  have raises: "fst (flaky_endpoint (file_path ([song_a, song_b] ! 1)) (case None of None \<Rightarrow> 0 | Some j \<Rightarrow> j)
      (snd (review_all_songs (review_api flaky_endpoint) (take 1 [song_a, song_b]) None ()))) =
      Inl (Exception ''timed out'')"
    by (simp add: flaky_endpoint_def example_defs)
  have lt: "1 < length [song_a, song_b]" by simp
  from inst have at: "\<forall>i e. i < length [song_a, song_b] \<and>
        fst (flaky_endpoint (file_path ([song_a, song_b] ! i)) (case None of None \<Rightarrow> 0 | Some j \<Rightarrow> j)
              (snd (review_all_songs (review_api flaky_endpoint) (take i [song_a, song_b]) None ()))) = Inl e \<longrightarrow>
        verdict (?rs ! i) = PStr ''error''"
    by (elim conjE)
  have second: "verdict (?rs ! 1) = PStr ''error''"
    using at [rule_format, OF conjI [OF lt raises]] .
  have first: "verdict (?rs ! 0) = PStr ''continue''"
    by (simp add: review_api_source call_review_api_def flaky_endpoint_def review_record_def
        dict_get_def example_defs)
  have len: "length ?rs = 2" using inst by simp
  then obtain r1 r2 where rs: "?rs = [r1, r2]"
    by (metis (no_types, lifting) length_0_conv length_Suc_conv numeral_2_eq_2)
  have verdicts: "map verdict ?rs = [PStr ''continue'', PStr ''error'']"
    using first second unfolding rs by simp
  have order: "map song_of ?rs = [song_a, song_b]" using inst by blast
  have br: "review_songs broken_api [song_a, song_b] None [] () = (Inl (Exception ''no review service''), ())"
    by (subst review_songs_Cons) (simp add: broken_api_def)
  have all_err: "\<forall>r \<in> set ?bs. verdict r = PStr ''error''"
    using inst_broken br by blast
  have "length ?bs = 2" using inst_broken by simp
  then obtain b1 b2 where bs: "?bs = [b1, b2]"
    by (metis (no_types, lifting) length_0_conv length_Suc_conv numeral_2_eq_2)
  have broken: "map verdict ?bs = [PStr ''error'', PStr ''error'']"
    using all_err unfolding bs by simp
  show ?thesis using verdicts order broken by simp
qed




section \<open>Properties of one attempt and of the loop\<close>


text \<open>
  Each step of the \<^verbatim>\<open>try\<close> block establishes \<open>body_post\<close>, one iteration
  \<open>attempt_post\<close>, the loop \<open>loop_post\<close>, unless something leaves them uncaught;
  \<open>run_cases\<close> then splits every run of \<^verbatim>\<open>execute_song_workflow\<close> into its five ways
  of ending.
\<close>

lemma body_post_prepend:
  assumes "body_post n (tr @ [ev]) atts res s'"
    and "event_attempt ev = n" and "\<forall>e. ev \<noteq> Caught n e" and "\<forall>m k. ev \<noteq> Routed m k"
  shows "body_post n tr atts res s'"
proof -
  from assms(1) obtain evs where evs: "trace s' = (tr @ [ev]) @ evs" "calls_of n evs"
    and rest: "(case res of
           Inl (e, ad) \<Rightarrow>
             unrouted evs \<and> attempts (workflow_details s') = atts \<and> attempt_number ad = n
         | Inr Next_attempt \<Rightarrow>
             routed_zero evs \<and>
             (\<exists>a. attempts (workflow_details s') = atts @ [a] \<and> attempt_number a = n)
         | Inr (Return r) \<Rightarrow>
             (\<exists>k d. 0 < k \<and> evs \<noteq> [] \<and> last evs = Routed n k \<and> unrouted (butlast evs) \<and>
                r = success_result n k d (workflow_details s')) \<and>
             (\<exists>a. attempts (workflow_details s') = atts @ [a] \<and> attempt_number a = n))"
    unfolding body_post_def by blast
  have 1: "trace s' = tr @ (ev # evs)" using evs(1) by simp
  have 2: "calls_of n (ev # evs)" using evs(2) assms(2,3) by (simp add: calls_of_def)
  have 3: "(case res of
           Inl (e, ad) \<Rightarrow>
             unrouted (ev # evs) \<and> attempts (workflow_details s') = atts \<and> attempt_number ad = n
         | Inr Next_attempt \<Rightarrow>
             routed_zero (ev # evs) \<and>
             (\<exists>a. attempts (workflow_details s') = atts @ [a] \<and> attempt_number a = n)
         | Inr (Return r) \<Rightarrow>
             (\<exists>k d. 0 < k \<and> ev # evs \<noteq> [] \<and> last (ev # evs) = Routed n k \<and> unrouted (butlast (ev # evs)) \<and>
                r = success_result n k d (workflow_details s')) \<and>
             (\<exists>a. attempts (workflow_details s') = atts @ [a] \<and> attempt_number a = n))"
    using rest assms(4)
    by (auto simp: unrouted_def routed_zero_def split: sum.splits body_exit.splits prod.splits)
  show ?thesis unfolding body_post_def using 1 2 3 by blast
qed

lemma route_step_post:
  assumes ad: "attempt_number ad = n" and run: "route_step cs f n rs ad s = (res, s')"
  shows "body_post n (trace s) (attempts (workflow_details s)) res s'"
proof (cases "n = max_attempts")
  case True
  show ?thesis
  proof (cases "call_process_song_verdicts_final_attempt cs rs f (world s)")
    case (Pair r w)
    show ?thesis
    proof (cases r)
      case (Inl e)
      with Pair True run ad show ?thesis
        unfolding body_post_def route_step_def log_event_def Let_def
        by (intro exI [of _ "[Routing n True rs]"]) (auto simp: calls_of_def unrouted_def)
    next
      case (Inr vr)
      with Pair True run ad show ?thesis
        unfolding body_post_def route_step_def log_event_def Let_def check_verdicts_def
          record_attempt_def
        by (intro exI [of _ "[Routing n True rs, Routed n (kept_count vr)]"])
           (auto simp: calls_of_def unrouted_def routed_zero_def split: if_splits)
    qed
  qed
next
  case False
  show ?thesis
  proof (cases "call_process_song_verdicts cs rs f (world s)")
    case (Pair r w)
    show ?thesis
    proof (cases r)
      case (Inl e)
      with Pair False run ad show ?thesis
        unfolding body_post_def route_step_def log_event_def Let_def
        by (intro exI [of _ "[Routing n False rs]"]) (auto simp: calls_of_def unrouted_def)
    next
      case (Inr vr)
      with Pair False run ad show ?thesis
        unfolding body_post_def route_step_def log_event_def Let_def check_verdicts_def
          record_attempt_def
        by (intro exI [of _ "[Routing n False rs, Routed n (kept_count vr)]"])
           (auto simp: calls_of_def unrouted_def routed_zero_def split: if_splits)
    qed
  qed
qed

lemma review_step_post:
  assumes ad: "attempt_number ad = n" and run: "review_step cs rq f n songs ad s = (res, s')"
  shows "body_post n (trace s) (attempts (workflow_details s)) res s'"
proof -
  define s2 where "s2 = log_event (Reviewing n songs)
    (if n = max_attempts then s\<lparr>final_attempt_songs := songs\<rparr> else s)"
  have tr2: "trace s2 = trace s @ [Reviewing n songs]"
    and at2: "attempts (workflow_details s2) = attempts (workflow_details s)"
    by (simp_all add: s2_def log_event_def)
  show ?thesis
  proof (cases "call_review_all_songs cs songs (song_structure_id rq) (world s2)")
    case (Pair r w)
    show ?thesis
    proof (cases r)
      case (Inl e)
      with Pair run ad tr2 at2 show ?thesis
        unfolding body_post_def review_step_def Let_def s2_def [symmetric]
        by (intro exI [of _ "[Reviewing n songs]"]) (auto simp: calls_of_def unrouted_def)
    next
      case (Inr review_results)
      define s3 where "s3 = s2\<lparr>world := w,
                   workflow_details := (workflow_details s2)
                     \<lparr>total_songs_reviewed :=
                        total_songs_reviewed (workflow_details s2) + length review_results\<rparr>\<rparr>"
      have "route_step cs f n review_results (ad\<lparr>reviews := review_results\<rparr>) s3 = (res, s')"
        using run Pair Inr unfolding review_step_def Let_def s2_def [symmetric] s3_def by simp
      from route_step_post [OF _ this] ad
      have "body_post n (trace s3) (attempts (workflow_details s3)) res s'" by simp
      then have "body_post n (trace s @ [Reviewing n songs]) (attempts (workflow_details s)) res s'"
        by (simp add: s3_def tr2 at2)
      then show ?thesis by (rule body_post_prepend) simp_all
    qed
  qed
qed

lemma download_step_post:
  assumes ad: "attempt_number ad = n" and run: "download_step cs rq t f n ad s = (res, s')"
  shows "body_post n (trace s) (attempts (workflow_details s)) res s'"
proof -
  define s1 where "s1 = log_event (Retrieval n) s"
  have tr1: "trace s1 = trace s @ [Retrieval n]"
    and at1: "attempts (workflow_details s1) = attempts (workflow_details s)"
    by (simp_all add: s1_def log_event_def)
  show ?thesis
  proof (cases "call_download_both_songs cs (song_title rq) t (world s1)")
    case (Pair r w)
    show ?thesis
    proof (cases r)
      case (Inl e)
      with Pair run ad tr1 at1 show ?thesis
        unfolding body_post_def download_step_def Let_def s1_def [symmetric]
        by (intro exI [of _ "[Retrieval n]"]) (auto simp: calls_of_def unrouted_def)
    next
      case (Inr download_results)
      show ?thesis
      proof (cases download_results)
        case (Download_failed err)
        with Pair Inr run ad tr1 at1 show ?thesis
          unfolding body_post_def download_step_def Let_def s1_def [symmetric] record_attempt_def
          by (intro exI [of _ "[Retrieval n]"]) (auto simp: calls_of_def routed_zero_def)
      next
        case (Downloaded songs msg)
        have "review_step cs rq f n songs (ad\<lparr>downloads := songs\<rparr>) (s1\<lparr>world := w\<rparr>) = (res, s')"
          using run Pair Inr Downloaded unfolding download_step_def Let_def s1_def [symmetric] by simp
        from review_step_post [OF _ this] ad
        have "body_post n (trace s @ [Retrieval n]) (attempts (workflow_details s)) res s'"
          by (simp add: tr1 at1)
        then show ?thesis by (rule body_post_prepend) simp_all
      qed
    qed
  qed
qed

lemma wait_step_post:
  assumes ad: "attempt_number ad = n" and run: "wait_step cs rq t f n ad s = (res, s')"
  shows "body_post n (trace s) (attempts (workflow_details s)) res s'"
proof -
  define s1 where "s1 = log_event (Waiting n) s"
  have tr1: "trace s1 = trace s @ [Waiting n]"
    and at1: "attempts (workflow_details s1) = attempts (workflow_details s)"
    by (simp_all add: s1_def log_event_def)
  show ?thesis
  proof (cases "call_sleep cs (3 * 60) (world s1)")
    case (Pair r w)
    show ?thesis
    proof (cases r)
      case (Inl e)
      with Pair run ad tr1 at1 show ?thesis
        unfolding body_post_def wait_step_def Let_def s1_def [symmetric]
        by (intro exI [of _ "[Waiting n]"]) (auto simp: calls_of_def unrouted_def)
    next
      case (Inr u)
      have "download_step cs rq t f n ad (s1\<lparr>world := w\<rparr>) = (res, s')"
        using run Pair Inr unfolding wait_step_def Let_def s1_def [symmetric] by simp
      from download_step_post [OF ad this]
      have "body_post n (trace s @ [Waiting n]) (attempts (workflow_details s)) res s'"
        by (simp add: tr1 at1)
      then show ?thesis by (rule body_post_prepend) simp_all
    qed
  qed
qed

lemma generation_step_post:
  assumes ad: "attempt_number ad = n" and run: "generation_step cs rq t f n ad s = (res, s')"
  shows "body_post n (trace s @ [Generation n]) (attempts (workflow_details s)) res s'"
proof -
  define s1 where "s1 = log_event (Generation n) s"
  have tr1: "trace s1 = trace s @ [Generation n]"
    and at1: "attempts (workflow_details s1) = attempts (workflow_details s)"
    by (simp_all add: s1_def log_event_def)
  show ?thesis
  proof (cases "call_generate_songs cs (book_name rq) (chapter_number rq) (verse_range rq)
      (style rq) (song_title rq) (world s1)")
    case (Pair r w)
    show ?thesis
    proof (cases r)
      case (Inl e)
      with Pair run ad tr1 at1 show ?thesis
        unfolding body_post_def generation_step_def Let_def s1_def [symmetric]
        by (intro exI [of _ "[]"]) (auto simp: calls_of_def unrouted_def)
    next
      case (Inr generation_result)
      show ?thesis
      proof (cases generation_result)
        case (Generation_failed err)
        with Pair Inr run ad tr1 at1 show ?thesis
          unfolding body_post_def generation_step_def Let_def s1_def [symmetric] record_attempt_def
          by (intro exI [of _ "[]"]) (auto simp: calls_of_def routed_zero_def)
      next
        case (Generated payload)
        define s2 where "s2 = s1\<lparr>world := w,
                        workflow_details := (workflow_details s1)
                          \<lparr>total_songs_generated :=
                             total_songs_generated (workflow_details s1) + 2\<rparr>\<rparr>"
        have "wait_step cs rq t f n (ad\<lparr>generation_success := True\<rparr>) s2 = (res, s')"
          using run Pair Inr Generated
          unfolding generation_step_def Let_def s1_def [symmetric] s2_def by simp
        from wait_step_post [OF _ this] ad
        show ?thesis by (simp add: s2_def tr1 at1)
      qed
    qed
  qed
qed

lemma run_attempt_post:
  assumes run: "run_attempt cs rq t f n s = (Inr exit, s')"
  shows "attempt_post n s exit s'"
proof -
  define ad0 where "ad0 = \<lparr>attempt_number = n, generation_success = False, downloads = [],
              reviews = [], final_action = None\<rparr>"
  obtain res s1 where body: "generation_step cs rq t f n ad0 s = (res, s1)"
    by (cases "generation_step cs rq t f n ad0 s")
  have "attempt_number ad0 = n" by (simp add: ad0_def)
  from generation_step_post [OF this body]
  obtain evs where tr: "trace s1 = (trace s @ [Generation n]) @ evs" and calls: "calls_of n evs"
    and rest: "(case res of
           Inl (e, ad) \<Rightarrow>
             unrouted evs \<and> attempts (workflow_details s1) = attempts (workflow_details s) \<and>
             attempt_number ad = n
         | Inr Next_attempt \<Rightarrow>
             routed_zero evs \<and>
             (\<exists>a. attempts (workflow_details s1) = attempts (workflow_details s) @ [a] \<and>
                attempt_number a = n)
         | Inr (Return r) \<Rightarrow>
             (\<exists>k d. 0 < k \<and> evs \<noteq> [] \<and> last evs = Routed n k \<and> unrouted (butlast evs) \<and>
                r = success_result n k d (workflow_details s1)) \<and>
             (\<exists>a. attempts (workflow_details s1) = attempts (workflow_details s) @ [a] \<and>
                attempt_number a = n))"
    unfolding body_post_def by blast
  have all_n: "\<forall>ev \<in> set evs. event_attempt ev = n" and no_caught: "\<forall>e. Caught n e \<notin> set evs"
    using calls by (auto simp: calls_of_def)
  show ?thesis
  proof (cases res)
    case (Inr ex)
    then have eq: "exit = ex" "s' = s1"
      using run body unfolding run_attempt_def ad0_def [symmetric] by simp_all
    show ?thesis
    proof (cases ex)
      case Next_attempt
      with rest Inr tr all_n no_caught eq show ?thesis
        unfolding attempt_post_def by (intro exI [of _ evs]) auto
    next
      case (Return r)
      with rest Inr tr all_n no_caught eq show ?thesis
        unfolding attempt_post_def by (intro exI [of _ evs]) auto
    qed
  next
    case (Inl p)
    obtain x ad where px: "p = (x, ad)" by (cases p)
    have "\<exists>e. x = Exc e"
    proof (cases x)
      case (Exc e)
      then show ?thesis by simp
    next
      case (Base_exception b)
      with run body Inl px show ?thesis
        unfolding run_attempt_def ad0_def [symmetric] by simp
    qed
    then obtain e where p: "p = (Exc e, ad)" using px by blast
    define s2 where "s2 = record_attempt
                     (ad\<lparr>final_action := Some (''exception: '' @ critical_error n e)\<rparr>)
                     (log_event (Caught n e) s1)"
    have ex: "exit = (if n = max_attempts
        then Return (fatal_result n (critical_error n e) (workflow_details s2)) else Next_attempt)"
      and s': "s' = s2"
      using run body Inl p
      unfolding run_attempt_def ad0_def [symmetric] s2_def Let_def
      by (auto split: if_splits)
    from rest Inl p have r: "unrouted evs"
      "attempts (workflow_details s1) = attempts (workflow_details s)" "attempt_number ad = n"
      by simp_all
    have tr2: "trace s2 = trace s @ Generation n # (evs @ [Caught n e])"
      using tr by (simp add: s2_def record_attempt_def log_event_def)
    have at2: "attempts (workflow_details s2) = attempts (workflow_details s) @
        [ad\<lparr>final_action := Some (''exception: '' @ critical_error n e)\<rparr>]"
      using r(2) by (simp add: s2_def record_attempt_def log_event_def)
    have un: "unrouted (evs @ [Caught n e])" using r(1) by (simp add: unrouted_def)
    show ?thesis
      unfolding attempt_post_def s'
      apply (rule exI [of _ "evs @ [Caught n e]"])
      apply (rule exI [of _ "ad\<lparr>final_action := Some (''exception: '' @ critical_error n e)\<rparr>"])
      using tr2 at2 un all_n no_caught r(3) ex s'
      apply (intro conjI)
          apply simp
         apply simp
        apply simp
       apply simp
      apply (rule disjI2, rule disjI2)
      apply (rule exI [of _ e])
      apply simp
      done
  qed
qed

lemma in_set_butlast_last: "xs \<noteq> [] \<Longrightarrow> x \<in> set xs \<Longrightarrow> x \<in> set (butlast xs) \<or> x = last xs"
  by (metis append_butlast_last_id in_set_conv_decomp rotate1.simps(2) set_ConsD set_rotate1)

lemma loop_post_return:
  assumes post: "attempt_post a s (Return r) s'" and ab: "a < b"
  shows "loop_post a b s (Some r) s'"
proof -
  from post obtain evs att where
    tr: "trace s' = trace s @ Generation a # evs"
    and all_a: "\<forall>ev \<in> set evs. event_attempt ev = a"
    and at: "attempts (workflow_details s') = attempts (workflow_details s) @ [att]"
    and num: "attempt_number att = a"
    and raw: "(Return r = Next_attempt \<and> routed_zero evs \<and> (\<forall>e. Caught a e \<notin> set evs))
         \<or> (\<exists>k d. 0 < k \<and> Return r = Return (success_result a k d (workflow_details s')) \<and>
               evs \<noteq> [] \<and> last evs = Routed a k \<and> unrouted (butlast evs) \<and>
               (\<forall>e. Caught a e \<notin> set evs))
         \<or> (\<exists>e. Return r = (if a = max_attempts
                          then Return (fatal_result a (critical_error a e) (workflow_details s'))
                          else Next_attempt) \<and>
               evs \<noteq> [] \<and> last evs = Caught a e \<and> (\<forall>e'. Caught a e' \<notin> set (butlast evs)) \<and>
               unrouted evs \<and>
               final_action att = Some (''exception: '' @ critical_error a e))"
    unfolding attempt_post_def by blast
  from raw have kinds: "(\<exists>k d. 0 < k \<and> r = success_result a k d (workflow_details s') \<and>
               evs \<noteq> [] \<and> last evs = Routed a k \<and> unrouted (butlast evs) \<and>
               (\<forall>e. Caught a e \<notin> set evs))
         \<or> (\<exists>e. a = max_attempts \<and> r = fatal_result a (critical_error a e) (workflow_details s') \<and>
               evs \<noteq> [] \<and> last evs = Caught a e \<and> (\<forall>e'. Caught a e' \<notin> set (butlast evs)) \<and>
               unrouted evs \<and>
               final_action att = Some (''exception: '' @ critical_error a e))"
    by (elim disjE exE conjE) (simp_all split: if_splits, blast+)
  have bounds: "\<forall>ev \<in> set (Generation a # evs). a \<le> event_attempt ev \<and> event_attempt ev < b"
    using all_a ab by simp
  from kinds show ?thesis
  proof
    assume "\<exists>k d. 0 < k \<and> r = success_result a k d (workflow_details s') \<and>
               evs \<noteq> [] \<and> last evs = Routed a k \<and> unrouted (butlast evs) \<and>
               (\<forall>e. Caught a e \<notin> set evs)"
    then obtain k d where k: "0 < k" "r = success_result a k d (workflow_details s')"
      "evs \<noteq> []" "last evs = Routed a k" "unrouted (butlast evs)" "\<forall>e. Caught a e \<notin> set evs"
      by blast
    have nocaught: "\<forall>n e. Caught n e \<notin> set (Generation a # evs)"
      using k(6) all_a by fastforce
    show ?thesis
      unfolding loop_post_def
      apply (rule exI [of _ "Generation a # evs"], rule exI [of _ "[att]"])
      using tr at bounds nocaught k num all_a
      by (auto simp: routed_zero_def unrouted_def)
  next
    assume "\<exists>e. a = max_attempts \<and> r = fatal_result a (critical_error a e) (workflow_details s') \<and>
               evs \<noteq> [] \<and> last evs = Caught a e \<and> (\<forall>e'. Caught a e' \<notin> set (butlast evs)) \<and>
               unrouted evs \<and>
               final_action att = Some (''exception: '' @ critical_error a e)"
    then obtain e where e: "a = max_attempts" "r = fatal_result a (critical_error a e) (workflow_details s')"
      "evs \<noteq> []" "last evs = Caught a e" "\<forall>e'. Caught a e' \<notin> set (butlast evs)"
      "unrouted evs" "final_action att = Some (''exception: '' @ critical_error a e)"
      by blast
    have uniq: "\<forall>n e'. Caught n e' \<in> set (Generation a # evs) \<longrightarrow> n = a \<and> e' = e"
    proof (intro allI impI)
      fix n e' assume "Caught n e' \<in> set (Generation a # evs)"
      then have in_evs: "Caught n e' \<in> set evs" by simp
      with all_a have n: "n = a" by fastforce
      from in_set_butlast_last [OF e(3) in_evs] e(4,5) n show "n = a \<and> e' = e" by auto
    qed
    show ?thesis
      unfolding loop_post_def
      apply (rule exI [of _ "Generation a # evs"], rule exI [of _ "[att]"])
      using tr at bounds uniq e num
      by (auto simp: routed_zero_def unrouted_def)
  qed
qed

lemma loop_post_next:
  assumes first: "attempt_post a s Next_attempt s1"
    and rest: "loop_post (Suc a) b s1 ro s'" and ab: "a < b"
  shows "loop_post a b s ro s'"
proof -
  from first obtain evs1 att1 where
    tr1: "trace s1 = trace s @ Generation a # evs1"
    and all_a: "\<forall>ev \<in> set evs1. event_attempt ev = a"
    and at1: "attempts (workflow_details s1) = attempts (workflow_details s) @ [att1]"
    and num1: "attempt_number att1 = a"
    and raw: "((Next_attempt :: result body_exit) = Next_attempt \<and> routed_zero evs1 \<and>
                 (\<forall>e. Caught a e \<notin> set evs1))
         \<or> (\<exists>k d. 0 < k \<and> Next_attempt = Return (success_result a k d (workflow_details s1)) \<and>
               evs1 \<noteq> [] \<and> last evs1 = Routed a k \<and> unrouted (butlast evs1) \<and>
               (\<forall>e. Caught a e \<notin> set evs1))
         \<or> (\<exists>e. Next_attempt = (if a = max_attempts
                          then Return (fatal_result a (critical_error a e) (workflow_details s1))
                          else Next_attempt) \<and>
               evs1 \<noteq> [] \<and> last evs1 = Caught a e \<and> (\<forall>e'. Caught a e' \<notin> set (butlast evs1)) \<and>
               unrouted evs1 \<and>
               final_action att1 = Some (''exception: '' @ critical_error a e))"
    unfolding attempt_post_def by blast
  from raw have kinds: "(routed_zero evs1 \<and> (\<forall>e. Caught a e \<notin> set evs1))
         \<or> (\<exists>e. a \<noteq> max_attempts \<and>
               evs1 \<noteq> [] \<and> last evs1 = Caught a e \<and> (\<forall>e'. Caught a e' \<notin> set (butlast evs1)) \<and>
               unrouted evs1 \<and>
               final_action att1 = Some (''exception: '' @ critical_error a e))"
    by (elim disjE exE conjE) (auto split: if_splits)
  have rz1: "routed_zero evs1"
    using kinds by (auto simp: routed_zero_def unrouted_def)
  have rec1: "\<forall>n e. Caught n e \<in> set evs1 \<longrightarrow>
      n = a \<and> a \<noteq> max_attempts \<and> final_action att1 = Some (''exception: '' @ critical_error a e)"
  proof (intro allI impI)
    fix n e assume mem: "Caught n e \<in> set evs1"
    with all_a have n: "n = a" by fastforce
    from kinds show "n = a \<and> a \<noteq> max_attempts \<and>
        final_action att1 = Some (''exception: '' @ critical_error a e)"
    proof
      assume "routed_zero evs1 \<and> (\<forall>e. Caught a e \<notin> set evs1)"
      with mem n show ?thesis by blast
    next
      assume "\<exists>e. a \<noteq> max_attempts \<and>
               evs1 \<noteq> [] \<and> last evs1 = Caught a e \<and> (\<forall>e'. Caught a e' \<notin> set (butlast evs1)) \<and>
               unrouted evs1 \<and>
               final_action att1 = Some (''exception: '' @ critical_error a e)"
      then obtain e0 where e0: "a \<noteq> max_attempts" "evs1 \<noteq> []" "last evs1 = Caught a e0"
        "\<forall>e'. Caught a e' \<notin> set (butlast evs1)"
        "final_action att1 = Some (''exception: '' @ critical_error a e0)" by blast
      from in_set_butlast_last [OF e0(2) mem] e0(3,4) n have "e = e0" by auto
      with e0 n show ?thesis by simp
    qed
  qed
  have nomax1: "\<forall>e. Caught max_attempts e \<notin> set evs1"
    using rec1 by blast
  from rest obtain evs2 more2 where
    tr2: "trace s' = trace s1 @ evs2"
    and at2: "attempts (workflow_details s') = attempts (workflow_details s1) @ more2"
    and bounds2: "\<forall>ev \<in> set evs2. Suc a \<le> event_attempt ev \<and> event_attempt ev < b"
    and first2: "Suc a < b \<longrightarrow> Generation (Suc a) \<in> set evs2"
    and rec2: "\<forall>n e. Caught n e \<in> set evs2 \<longrightarrow>
           (\<exists>att \<in> set more2. attempt_number att = n \<and>
              final_action att = Some (''exception: '' @ critical_error n e))"
    and adv2: "\<forall>n e. Caught n e \<in> set evs2 \<longrightarrow> n \<noteq> max_attempts \<longrightarrow> Suc n < b \<longrightarrow>
           Generation (Suc n) \<in> set evs2"
    and out2: "(case ro of
           None \<Rightarrow>
             routed_zero evs2 \<and> (\<forall>e. Caught max_attempts e \<notin> set evs2) \<and>
             map attempt_number more2 = [Suc a ..< b]
         | Some r \<Rightarrow>
             evs2 \<noteq> [] \<and>
             ((\<exists>n k d. 0 < k \<and> r = success_result n k d (workflow_details s') \<and>
                 last evs2 = Routed n k \<and> routed_zero (butlast evs2) \<and>
                 (\<forall>ev \<in> set evs2. event_attempt ev \<le> n) \<and>
                 (\<forall>e. Caught max_attempts e \<notin> set evs2) \<and>
                 map attempt_number more2 = [Suc a ..< Suc n])
              \<or> (\<exists>e. r = fatal_result max_attempts (critical_error max_attempts e)
                            (workflow_details s') \<and>
                    last evs2 = Caught max_attempts e \<and> routed_zero evs2 \<and>
                    (\<forall>e'. Caught max_attempts e' \<in> set evs2 \<longrightarrow> e' = e) \<and>
                    map attempt_number more2 = [Suc a ..< Suc max_attempts])))"
    unfolding loop_post_def by blast
  let ?evs = "Generation a # evs1 @ evs2"
  let ?more = "att1 # more2"
  have c1: "trace s' = trace s @ ?evs" using tr1 tr2 by simp
  have c2: "attempts (workflow_details s') = attempts (workflow_details s) @ ?more"
    using at1 at2 by simp
  have c3: "\<forall>ev \<in> set ?evs. a \<le> event_attempt ev \<and> event_attempt ev < b"
    using all_a bounds2 ab by auto
  have c4: "a < b \<longrightarrow> Generation a \<in> set ?evs" by simp
  have c5: "\<forall>n e. Caught n e \<in> set ?evs \<longrightarrow>
           (\<exists>att \<in> set ?more. attempt_number att = n \<and>
              final_action att = Some (''exception: '' @ critical_error n e))"
    using rec1 rec2 num1 by auto
  have c6: "\<forall>n e. Caught n e \<in> set ?evs \<longrightarrow> n \<noteq> max_attempts \<longrightarrow> Suc n < b \<longrightarrow>
           Generation (Suc n) \<in> set ?evs"
    using rec1 adv2 first2 by auto
  have c7: "(case ro of
           None \<Rightarrow>
             routed_zero ?evs \<and> (\<forall>e. Caught max_attempts e \<notin> set ?evs) \<and>
             map attempt_number ?more = [a ..< b]
         | Some r \<Rightarrow>
             ?evs \<noteq> [] \<and>
             ((\<exists>n k d. 0 < k \<and> r = success_result n k d (workflow_details s') \<and>
                 last ?evs = Routed n k \<and> routed_zero (butlast ?evs) \<and>
                 (\<forall>ev \<in> set ?evs. event_attempt ev \<le> n) \<and>
                 (\<forall>e. Caught max_attempts e \<notin> set ?evs) \<and>
                 map attempt_number ?more = [a ..< Suc n])
              \<or> (\<exists>e. r = fatal_result max_attempts (critical_error max_attempts e)
                            (workflow_details s') \<and>
                    last ?evs = Caught max_attempts e \<and> routed_zero ?evs \<and>
                    (\<forall>e'. Caught max_attempts e' \<in> set ?evs \<longrightarrow> e' = e) \<and>
                    map attempt_number ?more = [a ..< Suc max_attempts])))"
  proof (cases ro)
    case None
    with out2 have o: "routed_zero evs2" "\<forall>e. Caught max_attempts e \<notin> set evs2"
      "map attempt_number more2 = [Suc a ..< b]" by simp_all
    have "routed_zero ?evs" using rz1 o(1) by (auto simp: routed_zero_def)
    moreover have "\<forall>e. Caught max_attempts e \<notin> set ?evs" using nomax1 o(2) by simp
    moreover have "map attempt_number ?more = [a ..< b]"
      using o(3) num1 ab by (simp add: upt_conv_Cons)
    ultimately show ?thesis using None by simp
  next
    case (Some r)
    with out2 have ne: "evs2 \<noteq> []" and alt:
      "(\<exists>n k d. 0 < k \<and> r = success_result n k d (workflow_details s') \<and>
                 last evs2 = Routed n k \<and> routed_zero (butlast evs2) \<and>
                 (\<forall>ev \<in> set evs2. event_attempt ev \<le> n) \<and>
                 (\<forall>e. Caught max_attempts e \<notin> set evs2) \<and>
                 map attempt_number more2 = [Suc a ..< Suc n])
              \<or> (\<exists>e. r = fatal_result max_attempts (critical_error max_attempts e)
                            (workflow_details s') \<and>
                    last evs2 = Caught max_attempts e \<and> routed_zero evs2 \<and>
                    (\<forall>e'. Caught max_attempts e' \<in> set evs2 \<longrightarrow> e' = e) \<and>
                    map attempt_number more2 = [Suc a ..< Suc max_attempts])"
      by simp_all
    have last_eq: "last ?evs = last evs2" using ne by simp
    have butlast_eq: "butlast ?evs = Generation a # evs1 @ butlast evs2"
      using ne by (simp add: butlast_append)
    from alt show ?thesis
    proof
      assume "\<exists>n k d. 0 < k \<and> r = success_result n k d (workflow_details s') \<and>
                 last evs2 = Routed n k \<and> routed_zero (butlast evs2) \<and>
                 (\<forall>ev \<in> set evs2. event_attempt ev \<le> n) \<and>
                 (\<forall>e. Caught max_attempts e \<notin> set evs2) \<and>
                 map attempt_number more2 = [Suc a ..< Suc n]"
      then obtain n k d where n: "0 < k" "r = success_result n k d (workflow_details s')"
        "last evs2 = Routed n k" "routed_zero (butlast evs2)"
        "\<forall>ev \<in> set evs2. event_attempt ev \<le> n" "\<forall>e. Caught max_attempts e \<notin> set evs2"
        "map attempt_number more2 = [Suc a ..< Suc n]" by blast
      have "Routed n k \<in> set evs2" using n(3) ne last_in_set by metis
      with bounds2 have an: "Suc a \<le> n" by fastforce
      have i: "routed_zero (butlast ?evs)"
        using rz1 n(4) unfolding butlast_eq by (auto simp: routed_zero_def)
      have ii: "\<forall>ev \<in> set ?evs. event_attempt ev \<le> n" using all_a n(5) an by auto
      have iii: "\<forall>e. Caught max_attempts e \<notin> set ?evs" using nomax1 n(6) by simp
      have iv: "map attempt_number ?more = [a ..< Suc n]"
        using n(7) num1 an by (simp add: upt_conv_Cons)
      show ?thesis using Some n(1,2,3) i ii iii iv last_eq by auto
    next
      assume "\<exists>e. r = fatal_result max_attempts (critical_error max_attempts e)
                            (workflow_details s') \<and>
                    last evs2 = Caught max_attempts e \<and> routed_zero evs2 \<and>
                    (\<forall>e'. Caught max_attempts e' \<in> set evs2 \<longrightarrow> e' = e) \<and>
                    map attempt_number more2 = [Suc a ..< Suc max_attempts]"
      then obtain e where e: "r = fatal_result max_attempts (critical_error max_attempts e)
                            (workflow_details s')"
        "last evs2 = Caught max_attempts e" "routed_zero evs2"
        "\<forall>e'. Caught max_attempts e' \<in> set evs2 \<longrightarrow> e' = e"
        "map attempt_number more2 = [Suc a ..< Suc max_attempts]" by blast
      have "Caught max_attempts e \<in> set evs2" using e(2) ne last_in_set by metis
      with bounds2 have am: "Suc a \<le> max_attempts" by fastforce
      have i: "routed_zero ?evs" using rz1 e(3) by (auto simp: routed_zero_def)
      have ii: "\<forall>e'. Caught max_attempts e' \<in> set ?evs \<longrightarrow> e' = e" using nomax1 e(4) by simp
      have iii: "map attempt_number ?more = [a ..< Suc max_attempts]"
        using e(5) num1 am by (simp add: upt_conv_Cons)
      show ?thesis using Some e(1,2) i ii iii last_eq by auto
    qed
  qed
  show ?thesis
    unfolding loop_post_def
    by (rule exI [of _ ?evs], rule exI [of _ ?more]) (intro conjI c1 c2 c3 c4 c5 c6 c7)
qed

lemma attempts_loop_post:
  "attempts_loop cs rq t f [a ..< b] s = (Inr ro, s') \<Longrightarrow> loop_post a b s ro s'"
proof (induction "b - a" arbitrary: a s)
  case 0
  then have "[a ..< b] = []" by simp
  with 0 have "ro = None" "s' = s" by simp_all
  moreover have "\<not> a < b" using 0 by simp
  ultimately show ?case
    unfolding loop_post_def
    by (intro exI [of _ "[]"]) (simp add: routed_zero_def)
next
  case (Suc k)
  then have ab: "a < b" by simp
  then have list: "[a ..< b] = a # [Suc a ..< b]" by (simp add: upt_conv_Cons)
  obtain res s1 where first: "run_attempt cs rq t f a s = (res, s1)"
    by (cases "run_attempt cs rq t f a s")
  show ?case
  proof (cases res)
    case (Inl x)
    with Suc.prems first list show ?thesis by simp
  next
    case (Inr exit)
    from run_attempt_post [OF first [unfolded Inr]] have post: "attempt_post a s exit s1" .
    show ?thesis
    proof (cases exit)
      case (Return r)
      with Suc.prems first list Inr have "ro = Some r" "s' = s1" by simp_all
      with post Return ab show ?thesis by (simp add: loop_post_return)
    next
      case Next_attempt
      with Suc.prems first list Inr
      have "attempts_loop cs rq t f [Suc a ..< b] s1 = (Inr ro, s')" by simp
      moreover have "k = b - Suc a" using Suc.hyps(2) by simp
      ultimately have "loop_post (Suc a) b s1 ro s'" by (rule Suc.hyps(1) [rotated])
      with post Next_attempt ab show ?thesis by (auto intro: loop_post_next)
    qed
  qed
qed

lemma failsafe_step_cases:
  assumes "failsafe_step cs f s = (out, s')"
  shows "attempts (workflow_details s') = attempts (workflow_details s) \<and>
         final_attempt_songs s' = final_attempt_songs s \<and>
         ((final_attempt_songs s = [] \<and> trace s' = trace s \<and>
           out = Inr (exhausted_result (workflow_details s')))
          \<or> (final_attempt_songs s \<noteq> [] \<and> trace s' = trace s @ [Failsafe (final_attempt_songs s)] \<and>
              ((\<exists>e w w'. out = Inl e \<and>
                  call_handle_failsafe_songs cs (final_attempt_songs s) f w = (Inl e, w'))
               \<or> (\<exists>m. 0 < m \<and> out = Inr (failsafe_result m (workflow_details s')))
               \<or> out = Inr (exhausted_result (workflow_details s')))))"
proof (cases "final_attempt_songs s = []")
  case True
  with assms show ?thesis by (auto simp: failsafe_step_def)
next
  case False
  obtain r w where call: "call_handle_failsafe_songs cs (final_attempt_songs s) f
      (world (log_event (Failsafe (final_attempt_songs s)) s)) = (r, w)"
    by (cases "call_handle_failsafe_songs cs (final_attempt_songs s) f
      (world (log_event (Failsafe (final_attempt_songs s)) s))")
  show ?thesis
  proof (cases r)
    case (Inl e)
    with assms False call show ?thesis
      by (auto simp: failsafe_step_def Let_def log_event_def)
  next
    case (Inr c)
    with assms False call show ?thesis
      by (auto simp: failsafe_step_def Let_def log_event_def split: if_splits)
  qed
qed


text \<open>What was raised in a step of the \<^verbatim>\<open>try\<close> block, by which call, and what it left.\<close>

lemma raised_late_in_step: "raised_late cs rq d n songs x w \<Longrightarrow> raised_in_step cs rq x"
  unfolding raised_late_def raised_in_step_def
  by (elim disjE exE) (auto split: if_splits)

lemma route_step_raises:
  assumes run: "route_step cs d n rs ad s = (Inl (x, ad'), s')"
  shows "raised_late cs rq d n songs x (world s') \<and>
         trace s' = trace s @ [Routing n (n = max_attempts) rs]"
proof (cases "n = max_attempts")
  case True
  obtain r w where call: "call_process_song_verdicts_final_attempt cs rs d (world s) = (r, w)"
    by (cases "call_process_song_verdicts_final_attempt cs rs d (world s)")
  show ?thesis
  proof (cases r)
    case (Inl y)
    with run True call have "y = x" "world s' = w" "trace s' = trace s @ [Routing n True rs]"
      unfolding route_step_def Let_def log_event_def by auto
    with call Inl True show ?thesis unfolding raised_late_def by auto
  next
    case (Inr vr)
    with run True call show ?thesis
      unfolding route_step_def Let_def log_event_def by (auto split: prod.splits)
  qed
next
  case False
  obtain r w where call: "call_process_song_verdicts cs rs d (world s) = (r, w)"
    by (cases "call_process_song_verdicts cs rs d (world s)")
  show ?thesis
  proof (cases r)
    case (Inl y)
    with run False call have "y = x" "world s' = w" "trace s' = trace s @ [Routing n False rs]"
      unfolding route_step_def Let_def log_event_def by auto
    with call Inl False show ?thesis unfolding raised_late_def by auto
  next
    case (Inr vr)
    with run False call show ?thesis
      unfolding route_step_def Let_def log_event_def by (auto split: prod.splits)
  qed
qed

lemma review_step_raises:
  assumes run: "review_step cs rq d n songs ad s = (Inl (x, ad'), s')"
  shows "raised_late cs rq d n songs x (world s') \<and>
         (\<exists>evs. trace s' = trace s @ Reviewing n songs # evs \<and>
                (\<forall>songs'. Reviewing n songs' \<notin> set evs))"
proof -
  define s2 where "s2 = log_event (Reviewing n songs)
    (if n = max_attempts then s\<lparr>final_attempt_songs := songs\<rparr> else s)"
  have tr2: "trace s2 = trace s @ [Reviewing n songs]"
    by (simp add: s2_def log_event_def)
  obtain r w where call: "call_review_all_songs cs songs (song_structure_id rq) (world s2) = (r, w)"
    by (cases "call_review_all_songs cs songs (song_structure_id rq) (world s2)")
  show ?thesis
  proof (cases r)
    case (Inl y)
    with run call have "y = x" "world s' = w" "trace s' = trace s2"
      unfolding review_step_def Let_def s2_def [symmetric] by auto
    with call Inl tr2 show ?thesis unfolding raised_late_def by auto
  next
    case (Inr review_results)
    define s3 where "s3 = s2\<lparr>world := w,
                   workflow_details := (workflow_details s2)
                     \<lparr>total_songs_reviewed :=
                        total_songs_reviewed (workflow_details s2) + length review_results\<rparr>\<rparr>"
    have "route_step cs d n review_results (ad\<lparr>reviews := review_results\<rparr>) s3 = (Inl (x, ad'), s')"
      using run call Inr unfolding review_step_def Let_def s2_def [symmetric] s3_def by simp
    from route_step_raises [OF this, of rq songs]
    have "raised_late cs rq d n songs x (world s')"
      and "trace s' = trace s3 @ [Routing n (n = max_attempts) review_results]"
      by simp_all
    then show ?thesis by (simp add: s3_def tr2)
  qed
qed

lemma download_step_raises:
  assumes run: "download_step cs rq t d n ad s = (Inl (x, ad'), s')"
  shows "raised_in_step cs rq x \<and>
         (\<exists>evs. trace s' = trace s @ evs \<and>
            (\<forall>songs. Reviewing n songs \<in> set evs \<longrightarrow> raised_late cs rq d n songs x (world s')))"
proof -
  define s1 where "s1 = log_event (Retrieval n) s"
  have tr1: "trace s1 = trace s @ [Retrieval n]" by (simp add: s1_def log_event_def)
  obtain r w where call: "call_download_both_songs cs (song_title rq) t (world s1) = (r, w)"
    by (cases "call_download_both_songs cs (song_title rq) t (world s1)")
  show ?thesis
  proof (cases r)
    case (Inl y)
    with run call have "y = x" "trace s' = trace s1"
      unfolding download_step_def Let_def s1_def [symmetric] by auto
    with call Inl tr1 show ?thesis unfolding raised_in_step_def by auto
  next
    case (Inr download_results)
    show ?thesis
    proof (cases download_results)
      case (Download_failed err)
      with run call Inr show ?thesis
        unfolding download_step_def Let_def s1_def [symmetric] by simp
    next
      case (Downloaded songs msg)
      have "review_step cs rq d n songs (ad\<lparr>downloads := songs\<rparr>) (s1\<lparr>world := w\<rparr>)
          = (Inl (x, ad'), s')"
        using run call Inr Downloaded unfolding download_step_def Let_def s1_def [symmetric]
        by simp
      from review_step_raises [OF this] obtain evs where
        late: "raised_late cs rq d n songs x (world s')"
        and tr: "trace s' = trace s @ Retrieval n # Reviewing n songs # evs"
        and only: "\<forall>songs'. Reviewing n songs' \<notin> set evs"
        using tr1 by auto
      have "\<forall>songs'. Reviewing n songs' \<in> set (Retrieval n # Reviewing n songs # evs) \<longrightarrow>
          raised_late cs rq d n songs' x (world s')"
        using late only by auto
      with tr raised_late_in_step [OF late] show ?thesis by blast
    qed
  qed
qed

lemma wait_step_raises:
  assumes run: "wait_step cs rq t d n ad s = (Inl (x, ad'), s')"
  shows "raised_in_step cs rq x \<and>
         (\<exists>evs. trace s' = trace s @ evs \<and>
            (\<forall>songs. Reviewing n songs \<in> set evs \<longrightarrow> raised_late cs rq d n songs x (world s')))"
proof -
  define s1 where "s1 = log_event (Waiting n) s"
  have tr1: "trace s1 = trace s @ [Waiting n]" by (simp add: s1_def log_event_def)
  obtain r w where call: "call_sleep cs (3 * 60) (world s1) = (r, w)"
    by (cases "call_sleep cs (3 * 60) (world s1)")
  show ?thesis
  proof (cases r)
    case (Inl y)
    with run call have "y = x" "trace s' = trace s1"
      unfolding wait_step_def Let_def s1_def [symmetric] by auto
    with call Inl tr1 show ?thesis unfolding raised_in_step_def by auto
  next
    case (Inr u)
    have "download_step cs rq t d n ad (s1\<lparr>world := w\<rparr>) = (Inl (x, ad'), s')"
      using run call Inr unfolding wait_step_def Let_def s1_def [symmetric] by simp
    from download_step_raises [OF this] obtain evs where
      "raised_in_step cs rq x" and tr: "trace s' = trace s @ Waiting n # evs"
      and late: "\<forall>songs. Reviewing n songs \<in> set evs \<longrightarrow> raised_late cs rq d n songs x (world s')"
      using tr1 by auto
    moreover have "\<forall>songs. Reviewing n songs \<in> set (Waiting n # evs) \<longrightarrow>
        raised_late cs rq d n songs x (world s')"
      using late by simp
    ultimately show ?thesis by blast
  qed
qed

lemma generation_step_raises:
  assumes run: "generation_step cs rq t d n ad s = (Inl (x, ad'), s')"
  shows "raised_in_step cs rq x \<and>
         (\<exists>evs. trace s' = trace s @ evs \<and>
            (\<forall>songs. Reviewing n songs \<in> set evs \<longrightarrow> raised_late cs rq d n songs x (world s')))"
proof -
  define s1 where "s1 = log_event (Generation n) s"
  have tr1: "trace s1 = trace s @ [Generation n]" by (simp add: s1_def log_event_def)
  obtain r w where call: "call_generate_songs cs (book_name rq) (chapter_number rq)
      (verse_range rq) (style rq) (song_title rq) (world s1) = (r, w)"
    by (cases "call_generate_songs cs (book_name rq) (chapter_number rq)
      (verse_range rq) (style rq) (song_title rq) (world s1)")
  show ?thesis
  proof (cases r)
    case (Inl y)
    with run call have "y = x" "trace s' = trace s1"
      unfolding generation_step_def Let_def s1_def [symmetric] by auto
    with call Inl tr1 show ?thesis unfolding raised_in_step_def by auto
  next
    case (Inr generation_result)
    show ?thesis
    proof (cases generation_result)
      case (Generation_failed err)
      with run call Inr show ?thesis
        unfolding generation_step_def Let_def s1_def [symmetric] by simp
    next
      case (Generated payload)
      define s2 where "s2 = s1\<lparr>world := w,
                        workflow_details := (workflow_details s1)
                          \<lparr>total_songs_generated :=
                             total_songs_generated (workflow_details s1) + 2\<rparr>\<rparr>"
      have "wait_step cs rq t d n (ad\<lparr>generation_success := True\<rparr>) s2 = (Inl (x, ad'), s')"
        using run call Inr Generated
        unfolding generation_step_def Let_def s1_def [symmetric] s2_def by simp
      from wait_step_raises [OF this] obtain evs where
        "raised_in_step cs rq x" and tr: "trace s' = trace s @ Generation n # evs"
        and late: "\<forall>songs. Reviewing n songs \<in> set evs \<longrightarrow> raised_late cs rq d n songs x (world s')"
        using tr1 by (auto simp: s2_def)
      moreover have "\<forall>songs. Reviewing n songs \<in> set (Generation n # evs) \<longrightarrow>
          raised_late cs rq d n songs x (world s')"
        using late by simp
      ultimately show ?thesis by blast
    qed
  qed
qed


text \<open>What leaves an iteration uncaught, and where a caught exception came from.\<close>

lemma run_attempt_escape:
  assumes run: "run_attempt cs rq t d n s = (Inl x, s')"
  shows "(\<exists>b. x = Base_exception b) \<and> raised_in_step cs rq x \<and>
         attempts (workflow_details s') = attempts (workflow_details s) \<and>
         (\<exists>evs. trace s' = trace s @ Generation n # evs \<and> calls_of n evs \<and> unrouted evs)"
proof -
  define ad0 where "ad0 = \<lparr>attempt_number = n, generation_success = False, downloads = [],
              reviews = [], final_action = None\<rparr>"
  obtain res s1 where body: "generation_step cs rq t d n ad0 s = (res, s1)"
    by (cases "generation_step cs rq t d n ad0 s")
  from run body obtain b ad where res: "res = Inl (Base_exception b, ad)"
    and x: "x = Base_exception b" and s': "s' = s1"
    unfolding run_attempt_def ad0_def [symmetric] Let_def
    by (auto split: sum.splits prod.splits raised.splits if_splits)
  have "attempt_number ad0 = n" by (simp add: ad0_def)
  from generation_step_post [OF this body] res
  obtain evs where "trace s1 = (trace s @ [Generation n]) @ evs" "calls_of n evs"
    "unrouted evs" "attempts (workflow_details s1) = attempts (workflow_details s)"
    unfolding body_post_def by auto
  moreover from generation_step_raises [OF body [unfolded res]]
  have "raised_in_step cs rq (Base_exception b)" by simp
  ultimately show ?thesis using x s' by auto
qed

lemma run_attempt_caught:
  assumes run: "run_attempt cs rq t d n s = (Inr exit, s')"
    and caught: "Caught m e \<in> set (trace s')"
  shows "Caught m e \<in> set (trace s) \<or>
         (m = n \<and> raised_in_step cs rq (Exc e) \<and>
          (\<forall>songs. Reviewing n songs \<in> set (trace s') \<longrightarrow>
             Reviewing n songs \<in> set (trace s) \<or> raised_late cs rq d n songs (Exc e) (world s')))"
proof -
  define ad0 where "ad0 = \<lparr>attempt_number = n, generation_success = False, downloads = [],
              reviews = [], final_action = None\<rparr>"
  obtain res s1 where body: "generation_step cs rq t d n ad0 s = (res, s1)"
    by (cases "generation_step cs rq t d n ad0 s")
  have "attempt_number ad0 = n" by (simp add: ad0_def)
  from generation_step_post [OF this body]
  obtain evs where tr: "trace s1 = (trace s @ [Generation n]) @ evs" and calls: "calls_of n evs"
    unfolding body_post_def by blast
  have not_new: "Caught m e \<notin> set (Generation n # evs)"
    using calls unfolding calls_of_def by fastforce
  show ?thesis
  proof (cases res)
    case (Inr ex)
    with run body have "s' = s1" unfolding run_attempt_def ad0_def [symmetric] by simp
    with caught tr not_new show ?thesis by auto
  next
    case (Inl p)
    obtain x ad where p: "p = (x, ad)" by (cases p)
    show ?thesis
    proof (cases x)
      case (Base_exception b)
      with run body Inl p show ?thesis
        unfolding run_attempt_def ad0_def [symmetric] by simp
    next
      case (Exc e0)
      with run body Inl p have tr': "trace s' = trace s1 @ [Caught n e0]"
        and w': "world s' = world s1"
        unfolding run_attempt_def ad0_def [symmetric] Let_def
        by (auto simp: record_attempt_def log_event_def split: if_splits)
      from generation_step_raises [OF body [unfolded Inl p Exc]] obtain evs' where
        raised: "raised_in_step cs rq (Exc e0)" and tr1: "trace s1 = trace s @ evs'"
        and late: "\<forall>songs. Reviewing n songs \<in> set evs' \<longrightarrow>
          raised_late cs rq d n songs (Exc e0) (world s1)"
        by blast
      show ?thesis
      proof (cases "Caught m e \<in> set (trace s)")
        case True
        then show ?thesis by simp
      next
        case False
        with caught tr' tr not_new have eq: "m = n" "e = e0" by auto
        have "\<forall>songs. Reviewing n songs \<in> set (trace s') \<longrightarrow>
             Reviewing n songs \<in> set (trace s) \<or> raised_late cs rq d n songs (Exc e) (world s')"
          using late tr' tr1 w' eq by auto
        with eq raised show ?thesis by simp
      qed
    qed
  qed
qed

lemma attempts_loop_stops:
  assumes "attempts_loop cs rq t d [a ..< b] s = (res, s')" and "res \<noteq> Inr None"
  shows "\<exists>n s0. a \<le> n \<and> n < b \<and>
           attempts_loop cs rq t d [a ..< n] s = (Inr None, s0) \<and>
           (case res of
              Inl x \<Rightarrow> run_attempt cs rq t d n s0 = (Inl x, s')
            | Inr ro \<Rightarrow> (\<exists>r. ro = Some r \<and> run_attempt cs rq t d n s0 = (Inr (Return r), s')))"
  using assms
proof (induction "b - a" arbitrary: a s)
  case 0
  then have "[a ..< b] = []" by simp
  with 0 show ?case by simp
next
  case (Suc k)
  then have ab: "a < b" by simp
  then have list: "[a ..< b] = a # [Suc a ..< b]" by (simp add: upt_conv_Cons)
  obtain res1 s1 where first: "run_attempt cs rq t d a s = (res1, s1)"
    by (cases "run_attempt cs rq t d a s")
  have here: "attempts_loop cs rq t d [a ..< a] s = (Inr None, s)" by simp
  show ?case
  proof (cases res1)
    case (Inl x)
    with Suc.prems first list have "res = Inl x" "s' = s1" by simp_all
    with first Inl here ab show ?thesis
      by (intro exI [of _ a] exI [of _ s]) simp
  next
    case (Inr exit)
    show ?thesis
    proof (cases exit)
      case (Return r)
      with Suc.prems first list Inr have "res = Inr (Some r)" "s' = s1" by simp_all
      with first Inr Return here ab show ?thesis
        by (intro exI [of _ a] exI [of _ s]) simp
    next
      case Next_attempt
      with Suc.prems first list Inr
      have rest: "attempts_loop cs rq t d [Suc a ..< b] s1 = (res, s')" by simp
      have "k = b - Suc a" using Suc.hyps(2) by simp
      from Suc.hyps(1) [OF this rest Suc.prems(2)] obtain n s0 where
        n: "Suc a \<le> n" "n < b" and pre: "attempts_loop cs rq t d [Suc a ..< n] s1 = (Inr None, s0)"
        and fin: "(case res of
              Inl x \<Rightarrow> run_attempt cs rq t d n s0 = (Inl x, s')
            | Inr ro \<Rightarrow> (\<exists>r. ro = Some r \<and> run_attempt cs rq t d n s0 = (Inr (Return r), s')))"
        by blast
      from n have "[a ..< n] = a # [Suc a ..< n]" by (simp add: upt_conv_Cons)
      with first Inr Next_attempt pre
      have "attempts_loop cs rq t d [a ..< n] s = (Inr None, s0)" by simp
      with n fin show ?thesis
        by (intro exI [of _ n] exI [of _ s0]) simp
    qed
  qed
qed

lemma attempts_loop_raised:
  assumes "attempts_loop cs rq t d ns s = (res, s')"
  shows "(\<forall>m e. Caught m e \<in> set (trace s') \<longrightarrow>
            Caught m e \<in> set (trace s) \<or> raised_in_step cs rq (Exc e))
       \<and> (\<forall>x. res = Inl x \<longrightarrow> (\<exists>b. x = Base_exception b) \<and> raised_in_step cs rq x)"
  using assms
proof (induction ns arbitrary: s)
  case Nil
  then show ?case by auto
next
  case (Cons n ns)
  obtain res1 s1 where first: "run_attempt cs rq t d n s = (res1, s1)"
    by (cases "run_attempt cs rq t d n s")
  show ?case
  proof (cases res1)
    case (Inl x)
    with Cons.prems first have eq: "res = Inl x" "s' = s1" by simp_all
    from run_attempt_escape [OF first [unfolded Inl]] obtain evs where
      x: "\<exists>b. x = Base_exception b" "raised_in_step cs rq x"
      and tr: "trace s1 = trace s @ Generation n # evs" and calls: "calls_of n evs"
      by blast
    have "\<forall>m e. Caught m e \<notin> set (Generation n # evs)"
      using calls unfolding calls_of_def by fastforce
    with tr eq x show ?thesis by auto
  next
    case (Inr exit)
    have step: "\<forall>m e. Caught m e \<in> set (trace s1) \<longrightarrow>
            Caught m e \<in> set (trace s) \<or> raised_in_step cs rq (Exc e)"
      using run_attempt_caught [OF first [unfolded Inr]] by blast
    show ?thesis
    proof (cases exit)
      case (Return r)
      with Cons.prems first Inr have "res = Inr (Some r)" "s' = s1" by simp_all
      with step show ?thesis by simp
    next
      case Next_attempt
      with Cons.prems first Inr
      have "attempts_loop cs rq t d ns s1 = (res, s')" by simp
      from Cons.IH [OF this] step show ?thesis by blast
    qed
  qed
qed


lemma success_result_fields:
  "map_of (success_result n k d wd) ''success'' = Some (Val (PBool True))"
  "map_of (success_result n k d wd) ''total_attempts'' = Some (Val (PInt (int n)))"
  "map_of (success_result n k d wd) ''final_songs_count'' = Some (Val (PInt (int k)))"
  "map_of (success_result n k d wd) ''good_songs'' = Some (Val (PInt (int k)))"
  "map_of (success_result n k d wd) ''re_rolled_songs'' = Some (Val (PInt (int d)))"
  by (simp_all add: success_result_def)

lemma fatal_result_fields:
  "map_of (fatal_result n msg wd) ''success'' = Some (Val (PBool False))"
  "map_of (fatal_result n msg wd) ''total_attempts'' = Some (Val (PInt (int n)))"
  "map_of (fatal_result n msg wd) ''final_songs_count'' = Some (Val (PInt 0))"
  "map_of (fatal_result n msg wd) ''error'' = Some (Val (PStr msg))"
  "map_of (fatal_result n msg wd) ''good_songs'' = None"
  "map_of (fatal_result n msg wd) ''re_rolled_songs'' = None"
  by (simp_all add: fatal_result_def)

lemma failsafe_result_fields:
  "map_of (failsafe_result m wd) ''success'' = Some (Val (PBool True))"
  "map_of (failsafe_result m wd) ''total_attempts'' = Some (Val (PInt (int max_attempts)))"
  "map_of (failsafe_result m wd) ''final_songs_count'' = Some (Val (PInt (int m)))"
  "map_of (failsafe_result m wd) ''good_songs'' = Some (Val (PInt 0))"
  by (simp_all add: failsafe_result_def)

lemma exhausted_result_fields:
  "map_of (exhausted_result wd) ''success'' = Some (Val (PBool True))"
  "map_of (exhausted_result wd) ''total_attempts'' = Some (Val (PInt (int max_attempts)))"
  "map_of (exhausted_result wd) ''final_songs_count'' = Some (Val (PInt 0))"
  "map_of (exhausted_result wd) ''good_songs'' = Some (Val (PInt 0))"
  by (simp_all add: exhausted_result_def)


lemma initial_state_simps:
  "trace (initial_state w) = []" "attempts (workflow_details (initial_state w)) = []"
  "final_attempt_songs (initial_state w) = []" "world (initial_state w) = w"
  by (simp_all add: initial_state_def)


lemma execute_song_workflow_dirs:
  assumes run: "execute_song_workflow cs rq w = (out, s)"
  shows "(\<exists>x d w0 w1. out = Inl x \<and> s = initial_state w1 \<and> call_makedirs cs d w0 = (Inl x, w1))
       \<or> (\<exists>w1 w2. call_makedirs cs ''backend/songs/temp'' w = (Inr (), w1) \<and>
             call_makedirs cs verify_final_destination_folder w1 = (Inr (), w2) \<and>
             workflow_loop cs rq ''backend/songs/temp'' verify_final_destination_folder w2
               = (out, s))"
proof -
  obtain r1 w1 where m1: "call_makedirs cs ''backend/songs/temp'' w = (r1, w1)"
    by (cases "call_makedirs cs ''backend/songs/temp'' w")
  show ?thesis
  proof (cases r1)
    case (Inl x)
    with run m1 have "out = Inl x" "s = initial_state w1"
      unfolding execute_song_workflow_def Let_def by simp_all
    with m1 Inl show ?thesis by blast
  next
    case (Inr u)
    obtain r2 w2 where m2: "call_makedirs cs verify_final_destination_folder w1 = (r2, w2)"
      by (cases "call_makedirs cs verify_final_destination_folder w1")
    show ?thesis
    proof (cases r2)
      case (Inl x)
      with run m1 m2 Inr have "out = Inl x" "s = initial_state w2"
        unfolding execute_song_workflow_def Let_def by simp_all
      with m2 Inl show ?thesis by blast
    next
      case Inr2: (Inr u')
      with run m1 m2 Inr
      have "workflow_loop cs rq ''backend/songs/temp'' verify_final_destination_folder w2
          = (out, s)"
        unfolding execute_song_workflow_def Let_def by simp
      with m1 m2 Inr Inr2 show ?thesis by simp
    qed
  qed
qed

lemma workflow_loop_cases:
  assumes run: "workflow_loop cs rq t d w = (out, s)"
  obtains (returned) ro s1 where
      "attempts_loop cs rq t d [1 ..< max_attempts + 1] (initial_state w) = (Inr ro, s1)"
      "loop_post 1 (max_attempts + 1) (initial_state w) ro s1"
      "case ro of Some r \<Rightarrow> out = Inr r \<and> s = s1
       | None \<Rightarrow> failsafe_step cs d s1 = (out, s)"
    | (escaped) x where
      "attempts_loop cs rq t d [1 ..< max_attempts + 1] (initial_state w) = (Inl x, s)"
      "out = Inl x"
proof -
  obtain res s1 where loop: "attempts_loop cs rq t d [1 ..< max_attempts + 1] (initial_state w)
      = (res, s1)"
    by (cases "attempts_loop cs rq t d [1 ..< max_attempts + 1] (initial_state w)")
  show thesis
  proof (cases res)
    case (Inl x)
    with run loop have "out = Inl x" "s = s1" unfolding workflow_loop_def by simp_all
    with loop Inl show thesis by (intro escaped [of x]) simp_all
  next
    case (Inr ro)
    have "case ro of Some r \<Rightarrow> out = Inr r \<and> s = s1
       | None \<Rightarrow> failsafe_step cs d s1 = (out, s)"
      using run loop Inr unfolding workflow_loop_def by (cases ro) auto
    with loop [unfolded Inr] attempts_loop_post [OF loop [unfolded Inr]]
    show thesis by (rule returned)
  qed
qed

lemma workflow_loop_run_cases:
  assumes run: "workflow_loop cs rq t verify_final_destination_folder w = (out, s)"
  obtains (kept) n k d where "0 < k" "out = Inr (success_result n k d (workflow_details s))"
      "trace s \<noteq> []" "last (trace s) = Routed n k" "routed_zero (butlast (trace s))"
      "\<forall>ev \<in> set (trace s). 1 \<le> event_attempt ev \<and> event_attempt ev \<le> n"
      "n \<le> max_attempts"
      "\<forall>e. Caught max_attempts e \<notin> set (trace s)"
      "map attempt_number (attempts (workflow_details s)) = [1 ..< Suc n]"
    | (fatal) e where
      "out = Inr (fatal_result max_attempts (critical_error max_attempts e) (workflow_details s))"
      "trace s \<noteq> []" "last (trace s) = Caught max_attempts e" "routed_zero (trace s)"
      "\<forall>e'. Caught max_attempts e' \<in> set (trace s) \<longrightarrow> e' = e"
      "\<forall>ev \<in> set (trace s). 1 \<le> event_attempt ev \<and> event_attempt ev \<le> max_attempts"
      "map attempt_number (attempts (workflow_details s)) = [1 ..< Suc max_attempts]"
    | (escaped) b n where "out = Inl (Base_exception b)"
      "raised_in_step cs rq (Base_exception b)"
      "1 \<le> n" "n \<le> max_attempts" "Generation n \<in> set (trace s)"
      "routed_zero (trace s)" "\<forall>e. Caught max_attempts e \<notin> set (trace s)"
      "\<forall>ev \<in> set (trace s). 1 \<le> event_attempt ev \<and> event_attempt ev \<le> n"
      "map attempt_number (attempts (workflow_details s)) = [1 ..< n]"
    | (exhausted) "routed_zero (trace s)" "\<forall>e. Caught max_attempts e \<notin> set (trace s)"
      "map attempt_number (attempts (workflow_details s)) = [1 ..< Suc max_attempts]"
      "(\<exists>e songs w w'. out = Inl e \<and>
          call_handle_failsafe_songs cs songs verify_final_destination_folder w = (Inl e, w'))
       \<or> (\<exists>m. 0 < m \<and> out = Inr (failsafe_result m (workflow_details s)))
       \<or> out = Inr (exhausted_result (workflow_details s))"
  using run
proof (cases rule: workflow_loop_cases)
  case (escaped x)
  from attempts_loop_stops [OF escaped(1)] obtain n s0 where
    n: "1 \<le> n" "n < max_attempts + 1"
    and pre: "attempts_loop cs rq t verify_final_destination_folder [1 ..< n] (initial_state w)
      = (Inr None, s0)"
    and last: "run_attempt cs rq t verify_final_destination_folder n s0 = (Inl x, s)"
    by auto
  from attempts_loop_post [OF pre] obtain evs0 more where
    tr0: "trace s0 = evs0" and at0: "attempts (workflow_details s0) = more"
    and bounds0: "\<forall>ev \<in> set evs0. 1 \<le> event_attempt ev \<and> event_attempt ev < n"
    and rz0: "routed_zero evs0" and nomax0: "\<forall>e. Caught max_attempts e \<notin> set evs0"
    and nums0: "map attempt_number more = [1 ..< n]"
    unfolding loop_post_def initial_state_simps by auto
  from run_attempt_escape [OF last] obtain b evs where
    x: "x = Base_exception b" and raised: "raised_in_step cs rq x"
    and at: "attempts (workflow_details s) = attempts (workflow_details s0)"
    and tr: "trace s = trace s0 @ Generation n # evs" and calls: "calls_of n evs"
    and un: "unrouted evs"
    by blast
  show thesis
  proof (rule that(3) [of b n])
    show "out = Inl (Base_exception b)" using escaped(2) x by simp
    show "raised_in_step cs rq (Base_exception b)" using raised x by simp
    show "1 \<le> n" by (rule n(1))
    show "n \<le> max_attempts" using n(2) by simp
    show "Generation n \<in> set (trace s)" using tr by simp
    show "routed_zero (trace s)"
      using tr tr0 rz0 un by (auto simp: routed_zero_def unrouted_def)
    show "\<forall>e. Caught max_attempts e \<notin> set (trace s)"
      using tr tr0 nomax0 calls unfolding calls_of_def by fastforce
    show "\<forall>ev \<in> set (trace s). 1 \<le> event_attempt ev \<and> event_attempt ev \<le> n"
      using tr tr0 bounds0 calls n(1) unfolding calls_of_def by fastforce
    show "map attempt_number (attempts (workflow_details s)) = [1 ..< n]"
      using at at0 nums0 by simp
  qed
next
  case (returned ro s1)
  note post = returned(2)
  note fin = returned(3)
  note kept = that(1)
  note fatal = that(2)
  note exhausted = that(4)
  from post obtain evs more where
    tr: "trace s1 = evs"
    and at: "attempts (workflow_details s1) = more"
    and bounds0: "\<forall>ev \<in> set evs. 1 \<le> event_attempt ev \<and> event_attempt ev < max_attempts + 1"
    and outc: "(case ro of
           None \<Rightarrow>
             routed_zero evs \<and> (\<forall>e. Caught max_attempts e \<notin> set evs) \<and>
             map attempt_number more = [1 ..< max_attempts + 1]
         | Some r \<Rightarrow>
             evs \<noteq> [] \<and>
             ((\<exists>n k d. 0 < k \<and> r = success_result n k d (workflow_details s1) \<and>
                 last evs = Routed n k \<and> routed_zero (butlast evs) \<and>
                 (\<forall>ev \<in> set evs. event_attempt ev \<le> n) \<and>
                 (\<forall>e. Caught max_attempts e \<notin> set evs) \<and>
                 map attempt_number more = [1 ..< Suc n])
              \<or> (\<exists>e. r = fatal_result max_attempts (critical_error max_attempts e)
                            (workflow_details s1) \<and>
                    last evs = Caught max_attempts e \<and> routed_zero evs \<and>
                    (\<forall>e'. Caught max_attempts e' \<in> set evs \<longrightarrow> e' = e) \<and>
                    map attempt_number more = [1 ..< Suc max_attempts])))"
    unfolding loop_post_def initial_state_simps by auto
  have bounds: "\<forall>ev \<in> set evs. 1 \<le> event_attempt ev \<and> event_attempt ev \<le> max_attempts"
    using bounds0 by auto
  show thesis
  proof (cases ro)
    case (Some r)
    with fin have eq: "out = Inr r" "s = s1" by simp_all
    from outc Some have ne: "evs \<noteq> []" and alt:
      "(\<exists>n k d. 0 < k \<and> r = success_result n k d (workflow_details s1) \<and>
                 last evs = Routed n k \<and> routed_zero (butlast evs) \<and>
                 (\<forall>ev \<in> set evs. event_attempt ev \<le> n) \<and>
                 (\<forall>e. Caught max_attempts e \<notin> set evs) \<and>
                 map attempt_number more = [1 ..< Suc n])
              \<or> (\<exists>e. r = fatal_result max_attempts (critical_error max_attempts e)
                            (workflow_details s1) \<and>
                    last evs = Caught max_attempts e \<and> routed_zero evs \<and>
                    (\<forall>e'. Caught max_attempts e' \<in> set evs \<longrightarrow> e' = e) \<and>
                    map attempt_number more = [1 ..< Suc max_attempts])"
      by simp_all
    from alt show thesis
    proof
      assume "\<exists>n k d. 0 < k \<and> r = success_result n k d (workflow_details s1) \<and>
                 last evs = Routed n k \<and> routed_zero (butlast evs) \<and>
                 (\<forall>ev \<in> set evs. event_attempt ev \<le> n) \<and>
                 (\<forall>e. Caught max_attempts e \<notin> set evs) \<and>
                 map attempt_number more = [1 ..< Suc n]"
      then obtain n k d where k: "0 < k" "r = success_result n k d (workflow_details s1)"
        "last evs = Routed n k" "routed_zero (butlast evs)"
        "\<forall>ev \<in> set evs. event_attempt ev \<le> n" "\<forall>e. Caught max_attempts e \<notin> set evs"
        "map attempt_number more = [1 ..< Suc n]" by blast
      have "Routed n k \<in> set evs" using k(3) ne last_in_set by metis
      with bounds have nmax: "n \<le> max_attempts" by fastforce
      show thesis
      proof (rule kept [of k n d])
        show "0 < k" by (rule k(1))
        show "out = Inr (success_result n k d (workflow_details s))" using eq k(2) by simp
        show "trace s \<noteq> []" using eq tr ne by simp
        show "last (trace s) = Routed n k" using eq tr k(3) by simp
        show "routed_zero (butlast (trace s))" using eq tr k(4) by simp
        show "\<forall>ev \<in> set (trace s). 1 \<le> event_attempt ev \<and> event_attempt ev \<le> n"
          using eq tr k(5) bounds by simp
        show "n \<le> max_attempts" by (rule nmax)
        show "\<forall>e. Caught max_attempts e \<notin> set (trace s)" using eq tr k(6) by simp
        show "map attempt_number (attempts (workflow_details s)) = [1 ..< Suc n]"
          using eq at k(7) by simp
      qed
    next
      assume "\<exists>e. r = fatal_result max_attempts (critical_error max_attempts e)
                            (workflow_details s1) \<and>
                    last evs = Caught max_attempts e \<and> routed_zero evs \<and>
                    (\<forall>e'. Caught max_attempts e' \<in> set evs \<longrightarrow> e' = e) \<and>
                    map attempt_number more = [1 ..< Suc max_attempts]"
      then obtain e where e: "r = fatal_result max_attempts (critical_error max_attempts e)
                            (workflow_details s1)"
        "last evs = Caught max_attempts e" "routed_zero evs"
        "\<forall>e'. Caught max_attempts e' \<in> set evs \<longrightarrow> e' = e"
        "map attempt_number more = [1 ..< Suc max_attempts]" by blast
      show thesis
      proof (rule fatal [of e])
        show "out = Inr (fatal_result max_attempts (critical_error max_attempts e)
            (workflow_details s))" using eq e(1) by simp
        show "trace s \<noteq> []" using eq tr ne by simp
        show "last (trace s) = Caught max_attempts e" using eq tr e(2) by simp
        show "routed_zero (trace s)" using eq tr e(3) by simp
        show "\<forall>e'. Caught max_attempts e' \<in> set (trace s) \<longrightarrow> e' = e" using eq tr e(4) by simp
        show "\<forall>ev \<in> set (trace s). 1 \<le> event_attempt ev \<and> event_attempt ev \<le> max_attempts"
          using eq tr bounds by simp
        show "map attempt_number (attempts (workflow_details s)) = [1 ..< Suc max_attempts]"
          using eq at e(5) by simp
      qed
    qed
  next
    case None
    with fin have fs: "failsafe_step cs verify_final_destination_folder s1 = (out, s)" by simp
    from outc None have o: "routed_zero evs" "\<forall>e. Caught max_attempts e \<notin> set evs"
      "map attempt_number more = [1 ..< Suc max_attempts]" by simp_all
    from failsafe_step_cases [OF fs] have
      at': "attempts (workflow_details s) = more"
      and alt: "(final_attempt_songs s1 = [] \<and> trace s = trace s1 \<and>
           out = Inr (exhausted_result (workflow_details s)))
          \<or> (final_attempt_songs s1 \<noteq> [] \<and> trace s = trace s1 @ [Failsafe (final_attempt_songs s1)] \<and>
              ((\<exists>e w w'. out = Inl e \<and>
                  call_handle_failsafe_songs cs (final_attempt_songs s1) verify_final_destination_folder w = (Inl e, w'))
               \<or> (\<exists>m. 0 < m \<and> out = Inr (failsafe_result m (workflow_details s)))
               \<or> out = Inr (exhausted_result (workflow_details s))))"
      using at by simp_all
    have trs: "trace s = evs \<or> (\<exists>songs. trace s = evs @ [Failsafe songs])"
      using alt tr by auto
    show thesis
    proof (rule exhausted)
      show "routed_zero (trace s)" using trs o(1) by (auto simp: routed_zero_def)
      show "\<forall>e. Caught max_attempts e \<notin> set (trace s)" using trs o(2) by auto
      show "map attempt_number (attempts (workflow_details s)) = [1 ..< Suc max_attempts]"
        using at' o(3) by simp
      show "(\<exists>e songs w w'. out = Inl e \<and>
          call_handle_failsafe_songs cs songs verify_final_destination_folder w = (Inl e, w'))
       \<or> (\<exists>m. 0 < m \<and> out = Inr (failsafe_result m (workflow_details s)))
       \<or> out = Inr (exhausted_result (workflow_details s))"
        using alt by blast
    qed
  qed
qed


lemma run_cases:
  assumes run: "execute_song_workflow cs rq w = (out, s)"
  obtains (dirs) x d w0 w1 where "out = Inl x" "s = initial_state w1"
      "call_makedirs cs d w0 = (Inl x, w1)"
    | (kept) n k d where "0 < k" "out = Inr (success_result n k d (workflow_details s))"
      "trace s \<noteq> []" "last (trace s) = Routed n k" "routed_zero (butlast (trace s))"
      "\<forall>ev \<in> set (trace s). 1 \<le> event_attempt ev \<and> event_attempt ev \<le> n"
      "n \<le> max_attempts"
      "\<forall>e. Caught max_attempts e \<notin> set (trace s)"
      "map attempt_number (attempts (workflow_details s)) = [1 ..< Suc n]"
    | (fatal) e where
      "out = Inr (fatal_result max_attempts (critical_error max_attempts e) (workflow_details s))"
      "trace s \<noteq> []" "last (trace s) = Caught max_attempts e" "routed_zero (trace s)"
      "\<forall>e'. Caught max_attempts e' \<in> set (trace s) \<longrightarrow> e' = e"
      "\<forall>ev \<in> set (trace s). 1 \<le> event_attempt ev \<and> event_attempt ev \<le> max_attempts"
      "map attempt_number (attempts (workflow_details s)) = [1 ..< Suc max_attempts]"
    | (escaped) b n where "out = Inl (Base_exception b)"
      "raised_in_step cs rq (Base_exception b)"
      "1 \<le> n" "n \<le> max_attempts" "Generation n \<in> set (trace s)"
      "routed_zero (trace s)" "\<forall>e. Caught max_attempts e \<notin> set (trace s)"
      "\<forall>ev \<in> set (trace s). 1 \<le> event_attempt ev \<and> event_attempt ev \<le> n"
      "map attempt_number (attempts (workflow_details s)) = [1 ..< n]"
    | (exhausted) "routed_zero (trace s)" "\<forall>e. Caught max_attempts e \<notin> set (trace s)"
      "map attempt_number (attempts (workflow_details s)) = [1 ..< Suc max_attempts]"
      "(\<exists>e songs w w'. out = Inl e \<and>
          call_handle_failsafe_songs cs songs verify_final_destination_folder w = (Inl e, w'))
       \<or> (\<exists>m. 0 < m \<and> out = Inr (failsafe_result m (workflow_details s)))
       \<or> out = Inr (exhausted_result (workflow_details s))"
proof -
  from execute_song_workflow_dirs [OF run] show thesis
  proof (elim disjE exE conjE)
    fix x d w0 w1
    assume "out = Inl x" "s = initial_state w1" "call_makedirs cs d w0 = (Inl x, w1)"
    then show thesis by (rule dirs)
  next
    fix w1 w2
    assume "workflow_loop cs rq ''backend/songs/temp'' verify_final_destination_folder w2
      = (out, s)"
    then show thesis
    proof (cases rule: workflow_loop_run_cases)
      case (kept n k d)
      then show ?thesis by (rule that(2))
    next
      case (fatal e)
      then show ?thesis by (rule that(3))
    next
      case (escaped b n)
      then show ?thesis by (rule that(4))
    next
      case exhausted
      then show ?thesis by (rule that(5))
    qed
  qed
qed

lemma workflow_loop_caught:
  assumes run: "workflow_loop cs rq t d w = (out, s)" and caught: "Caught n e \<in> set (trace s)"
  shows "(\<exists>att \<in> set (attempts (workflow_details s)). attempt_number att = n \<and>
            final_action att = Some (''exception: '' @ critical_error n e))
         \<and> (n < max_attempts \<longrightarrow> Generation (Suc n) \<in> set (trace s))"
  using run
proof (cases rule: workflow_loop_cases)
  case (returned ro s1)
  note post = returned(2)
  note fin = returned(3)
  from post obtain evs more where
    tr: "trace s1 = evs"
    and at: "attempts (workflow_details s1) = more"
    and recd: "\<forall>n e. Caught n e \<in> set evs \<longrightarrow>
           (\<exists>att \<in> set more. attempt_number att = n \<and>
              final_action att = Some (''exception: '' @ critical_error n e))"
    and adv: "\<forall>n e. Caught n e \<in> set evs \<longrightarrow> n \<noteq> max_attempts \<longrightarrow> Suc n < max_attempts + 1 \<longrightarrow>
           Generation (Suc n) \<in> set evs"
    unfolding loop_post_def initial_state_simps by auto
  have same: "attempts (workflow_details s) = more \<and>
      (trace s = evs \<or> (\<exists>songs. trace s = evs @ [Failsafe songs]))"
  proof (cases ro)
    case (Some r)
    with fin tr at show ?thesis by simp
  next
    case None
    with fin have "failsafe_step cs d s1 = (out, s)" by simp
    from failsafe_step_cases [OF this] tr at show ?thesis by auto
  qed
  then have in_evs: "Caught n e \<in> set evs" using caught by auto
  from recd in_evs same have one: "\<exists>att \<in> set (attempts (workflow_details s)). attempt_number att = n \<and>
            final_action att = Some (''exception: '' @ critical_error n e)" by simp
  have two: "n < max_attempts \<longrightarrow> Generation (Suc n) \<in> set (trace s)"
  proof
    assume "n < max_attempts"
    with adv in_evs have "Generation (Suc n) \<in> set evs" by auto
    with same show "Generation (Suc n) \<in> set (trace s)" by auto
  qed
  from one two show ?thesis by simp
next
  case (escaped x)
  from attempts_loop_stops [OF escaped(1)] obtain m s0 where
    m: "1 \<le> m" "m < max_attempts + 1"
    and pre: "attempts_loop cs rq t d [1 ..< m] (initial_state w) = (Inr None, s0)"
    and last: "run_attempt cs rq t d m s0 = (Inl x, s)"
    by auto
  from attempts_loop_post [OF pre] obtain evs0 more where
    tr0: "trace s0 = evs0" and at0: "attempts (workflow_details s0) = more"
    and bounds0: "\<forall>ev \<in> set evs0. 1 \<le> event_attempt ev \<and> event_attempt ev < m"
    and recd: "\<forall>n e. Caught n e \<in> set evs0 \<longrightarrow>
           (\<exists>att \<in> set more. attempt_number att = n \<and>
              final_action att = Some (''exception: '' @ critical_error n e))"
    and adv: "\<forall>n e. Caught n e \<in> set evs0 \<longrightarrow> n \<noteq> max_attempts \<longrightarrow> Suc n < m \<longrightarrow>
           Generation (Suc n) \<in> set evs0"
    unfolding loop_post_def initial_state_simps by auto
  from run_attempt_escape [OF last] obtain evs where
    at: "attempts (workflow_details s) = attempts (workflow_details s0)"
    and tr: "trace s = trace s0 @ Generation m # evs" and calls: "calls_of m evs"
    by blast
  have "Caught n e \<notin> set (Generation m # evs)"
    using calls unfolding calls_of_def by fastforce
  with caught tr tr0 have in0: "Caught n e \<in> set evs0" by auto
  with bounds0 have nm: "n < m" by fastforce
  from recd in0 at at0 have one: "\<exists>att \<in> set (attempts (workflow_details s)). attempt_number att = n \<and>
            final_action att = Some (''exception: '' @ critical_error n e)" by simp
  have two: "n < max_attempts \<longrightarrow> Generation (Suc n) \<in> set (trace s)"
  proof
    assume lt: "n < max_attempts"
    show "Generation (Suc n) \<in> set (trace s)"
    proof (cases "Suc n < m")
      case True
      with adv in0 lt have "Generation (Suc n) \<in> set evs0" by auto
      with tr tr0 show ?thesis by simp
    next
      case False
      with nm have "Suc n = m" by simp
      with tr show ?thesis by simp
    qed
  qed
  from one two show ?thesis by simp
qed

lemma run_caught:
  assumes run: "execute_song_workflow cs rq w = (out, s)" and caught: "Caught n e \<in> set (trace s)"
  shows "(\<exists>att \<in> set (attempts (workflow_details s)). attempt_number att = n \<and>
            final_action att = Some (''exception: '' @ critical_error n e))
         \<and> (n < max_attempts \<longrightarrow> Generation (Suc n) \<in> set (trace s))"
proof -
  from execute_song_workflow_dirs [OF run] show ?thesis
  proof (elim disjE exE conjE)
    fix x d w0 w1
    assume "s = initial_state w1"
    with caught show ?thesis by (simp add: initial_state_simps)
  next
    fix w1 w2
    assume "workflow_loop cs rq ''backend/songs/temp'' verify_final_destination_folder w2
      = (out, s)"
    from workflow_loop_caught [OF this caught] show ?thesis .
  qed
qed

lemma workflow_loop_raised:
  assumes run: "workflow_loop cs rq t d w = (out, s)"
  shows "(\<forall>n e. Caught n e \<in> set (trace s) \<longrightarrow> raised_in_step cs rq (Exc e))
       \<and> (\<forall>x. out = Inl x \<longrightarrow>
            (\<exists>b. x = Base_exception b \<and> raised_in_step cs rq x) \<or>
            (\<exists>songs v v'. call_handle_failsafe_songs cs songs d v = (Inl x, v')))"
proof -
  obtain res s1 where loop: "attempts_loop cs rq t d [1 ..< max_attempts + 1] (initial_state w)
      = (res, s1)"
    by (cases "attempts_loop cs rq t d [1 ..< max_attempts + 1] (initial_state w)")
  from attempts_loop_raised [OF loop]
  have c1: "\<forall>m e. Caught m e \<in> set (trace s1) \<longrightarrow> raised_in_step cs rq (Exc e)"
    and e1: "\<forall>x. res = Inl x \<longrightarrow> (\<exists>b. x = Base_exception b) \<and> raised_in_step cs rq x"
    by (simp_all add: initial_state_simps)
  show ?thesis
  proof (cases res)
    case (Inl x)
    with run loop have "out = Inl x" "s = s1" unfolding workflow_loop_def by simp_all
    with c1 e1 Inl show ?thesis by auto
  next
    case (Inr ro)
    show ?thesis
    proof (cases ro)
      case (Some r)
      with run loop Inr have "out = Inr r" "s = s1" unfolding workflow_loop_def by simp_all
      with c1 show ?thesis by simp
    next
      case None
      with run loop Inr have fs: "failsafe_step cs d s1 = (out, s)"
        unfolding workflow_loop_def by simp
      from failsafe_step_cases [OF fs]
      have tr: "trace s = trace s1 \<or> (\<exists>songs. trace s = trace s1 @ [Failsafe songs])"
        and raise: "\<forall>x. out = Inl x \<longrightarrow>
          (\<exists>songs v v'. call_handle_failsafe_songs cs songs d v = (Inl x, v'))"
        by auto
      from tr c1 have "\<forall>n e. Caught n e \<in> set (trace s) \<longrightarrow> raised_in_step cs rq (Exc e)"
        by auto
      with raise show ?thesis by blast
    qed
  qed
qed

lemma run_raised:
  assumes run: "execute_song_workflow cs rq w = (out, s)"
  shows "(\<forall>n e. Caught n e \<in> set (trace s) \<longrightarrow> raised_in_step cs rq (Exc e))
       \<and> (\<forall>x. out = Inl x \<longrightarrow>
            (\<exists>d v v'. call_makedirs cs d v = (Inl x, v')) \<or>
            (\<exists>b. x = Base_exception b \<and> raised_in_step cs rq x) \<or>
            (\<exists>songs v v'. call_handle_failsafe_songs cs songs verify_final_destination_folder v
               = (Inl x, v')))"
proof -
  from execute_song_workflow_dirs [OF run] show ?thesis
  proof (elim disjE exE conjE)
    fix x d w0 w1
    assume "out = Inl x" "s = initial_state w1" "call_makedirs cs d w0 = (Inl x, w1)"
    then show ?thesis by (auto simp: initial_state_simps)
  next
    fix w1 w2
    assume "workflow_loop cs rq ''backend/songs/temp'' verify_final_destination_folder w2
      = (out, s)"
    from workflow_loop_raised [OF this] show ?thesis by blast
  qed
qed





section \<open>Properties of the retrieval adapter\<close>



















section \<open>Example runs\<close>

text \<open>
  The example runs, evaluated. With the approving review endpoint the first attempt keeps
  the song. When the review step raises, three attempts are made and each ends in the
  handler, with the staged song left in staging. When the final-attempt router raises
  after its work, the song it has moved is in final storage. A declining generation is
  reported as a failure. A cancelled wait leaves the function at once, and so does a
  refused \<^verbatim>\<open>os.makedirs\<close>. When every wait raises an \<^verbatim>\<open>Exception\<close>, each of the
  three attempts ends in the handler and the last one returns the fatal result.
\<close>

lemma str_nat_digit: "n < 10 \<Longrightarrow> str_nat n = [''0123456789'' ! n]"
  by (subst str_nat.simps) simp

lemma attempt_numbers: "[1 ..< max_attempts + 1] = [1, 2, 3]"
  by (simp add: max_attempts_def upt_rec)

lemmas run_defs = run_attempt_def generation_step_def
  wait_step_def download_step_def review_step_def route_step_def check_verdicts_def log_event_def
  record_attempt_def failsafe_step_def initial_state_def Let_def

lemmas source_defs = source_callees_def returning_def on_files_def makedirs_on_files_def
  os_makedirs_def generate_songs_def
  download_both_songs_def download_both_songs_try_def staged_song_def review_all_songs_def
  review_songs.simps
  review_api_def call_review_api_def review_record_def dict_get_def
  process_song_verdicts_def process_song_verdicts_final_attempt_def route_song_cases
  route_song_final_cases handle_failsafe_songs_def failsafe_song_cases
  verify_final_destination_folder_def

lemmas handler_defs = approving_handlers_def partial_handlers_def declining_handlers_def
  cancelled_handlers_def late_handlers_def interrupted_handlers_def
  approving_def rejecting_def second_only_def stage_def generating_def declining_def
  sleeping_def cancelled_def interrupted_def counting_def third_time_def psalm_request_def
  unreviewed_callees_def late_callees_def
  empty_disk_def readonly_disk_def empty_studio_def

lemma approving_run_trace:
  "trace (snd approving_run) =
     [Generation 1, Waiting 1, Retrieval 1,
      Reviewing 1 [\<lparr>file_path = ''backend/songs/temp/b.mp3'', index = - 2, title = ''psalm''\<rparr>],
      Routing 1 False
        [\<lparr>file_path = ''backend/songs/temp/b.mp3'', index = - 2, title = ''psalm'',
          verdict = PStr ''continue'',
          review_details =
            [(''success'', PBool True), (''verdict'', PStr ''continue''),
             (''first_response'', PNone), (''second_response'', PNone), (''error'', PNone),
             (''audio_file'', PStr ''backend/songs/temp/b.mp3'')]\<rparr>],
      Routed 1 1]"
  unfolding approving_run_def execute_song_workflow_def workflow_loop_def attempt_numbers
  by (simp add: run_defs source_defs handler_defs max_attempts_def)

lemma approving_run_result:
  "fst approving_run = Inr (success_result 1 1 0 (workflow_details (snd approving_run)))"
  unfolding approving_run_def execute_song_workflow_def workflow_loop_def attempt_numbers
  by (simp add: run_defs source_defs handler_defs max_attempts_def)

lemma approving_run_files:
  "paths (files (world (snd approving_run))) = {''backend/songs/final_review/b.mp3''}"
  unfolding approving_run_def execute_song_workflow_def workflow_loop_def attempt_numbers
  by (simp add: run_defs source_defs handler_defs max_attempts_def basename_def os_path_join_def)


lemma unreviewed_run_result:
  "fst unreviewed_run =
     Inr (fatal_result 3 (critical_error 3 (Exception ''review unavailable''))
            (workflow_details (snd unreviewed_run)))"
  unfolding unreviewed_run_def execute_song_workflow_def workflow_loop_def attempt_numbers
  by (simp add: run_defs source_defs handler_defs max_attempts_def)


lemma declining_generation:
  "call_generate_songs (source_callees declining_handlers) (book_name psalm_request)
     (chapter_number psalm_request) (verse_range psalm_request) (style psalm_request)
     (song_title psalm_request) empty_disk =
   (Inr (Generation_failed ''Song generation returned invalid result''), empty_disk)"
  by (simp add: source_defs handler_defs)

lemma declining_makedirs:
  "call_makedirs (source_callees declining_handlers) d empty_disk = (Inr (), empty_disk)"
  by (simp add: source_defs handler_defs)

lemma cancelled_run_value:
  "cancelled_run =
     (Inl (Base_exception ''CancelledError''),
      \<lparr>world = empty_disk, trace = [Generation 1, Waiting 1],
       workflow_details = \<lparr>attempts = [], total_songs_generated = 2,
         total_songs_reviewed = 0, songs_kept = 0, songs_deleted = 0\<rparr>,
       final_attempt_songs = []\<rparr>)"
  unfolding cancelled_run_def execute_song_workflow_def workflow_loop_def attempt_numbers
  by (simp add: run_defs source_defs handler_defs max_attempts_def)






lemma cancelled_attempt:
  "\<exists>ad s1. generation_step (source_callees cancelled_handlers) psalm_request
       ''backend/songs/temp'' verify_final_destination_folder 1
       \<lparr>attempt_number = 1, generation_success = False, downloads = [], reviews = [],
        final_action = None\<rparr> fresh_state = (Inl (Base_exception ''CancelledError'', ad), s1) \<and>
     trace s1 = [Generation 1, Waiting 1]"
  by (simp add: run_defs source_defs handler_defs fresh_state_def max_attempts_def)

lemma cancelled_sleep:
  "call_sleep (source_callees cancelled_handlers) (3 * 60) empty_disk
     = (Inl (Base_exception ''CancelledError''), empty_disk)"
  by (simp add: source_defs handler_defs)

lemma interrupted_run_trace:
  "trace (snd interrupted_run) =
     [Generation 1, Waiting 1, Caught 1 (Exception ''Event loop is closed''),
      Generation 2, Waiting 2, Caught 2 (Exception ''Event loop is closed''),
      Generation 3, Waiting 3, Caught 3 (Exception ''Event loop is closed'')]"
  unfolding interrupted_run_def execute_song_workflow_def workflow_loop_def attempt_numbers
  by (simp add: run_defs source_defs handler_defs max_attempts_def)

lemma interrupted_run_result:
  "fst interrupted_run =
     Inr (fatal_result 3 (critical_error 3 (Exception ''Event loop is closed''))
            (workflow_details (snd interrupted_run)))"
  unfolding interrupted_run_def execute_song_workflow_def workflow_loop_def attempt_numbers
  by (simp add: run_defs source_defs handler_defs max_attempts_def)

lemma interrupted_attempt:
  "\<exists>ad s1. generation_step (source_callees interrupted_handlers) psalm_request
       ''backend/songs/temp'' verify_final_destination_folder 1
       \<lparr>attempt_number = 1, generation_success = False, downloads = [], reviews = [],
        final_action = None\<rparr> fresh_state = (Inl (Exc (Exception ''Event loop is closed''), ad), s1) \<and>
     trace s1 = [Generation 1, Waiting 1]"
  by (simp add: run_defs source_defs handler_defs fresh_state_def max_attempts_def)


section \<open>Properties of the workflow\<close>

text \<open>
  C1. In every run, with any callees: if the router of attempt \<open>n\<close> returned a kept-count
  \<open>k > 0\<close> (the entry \<open>Routed n k\<close> of the trace), then \<^verbatim>\<open>execute_song_workflow\<close>
  returns a result with \<^verbatim>\<open>success\<close> true, \<^verbatim>\<open>total_attempts\<close> \<open>n\<close> and
  \<^verbatim>\<open>final_songs_count\<close> \<open>k\<close>; \<open>n\<close> is between 1 and 3; that entry is the last of the
  trace and every entry belongs to an attempt up to \<open>n\<close>, so that no generation, wait,
  retrieval, review or routing of a later attempt and no fail-safe call is made; and the
  attempt history holds the attempts 1 to \<open>n\<close>, one record each.
\<close>

theorem kept_song_ends_workflow:
  assumes run: "execute_song_workflow cs rq w = (out, s)"
    and routed: "Routed n k \<in> set (trace s)" and kept: "0 < k"
  shows "(\<exists>r. out = Inr r \<and>
            map_of r ''success'' = Some (Val (PBool True)) \<and>
            map_of r ''total_attempts'' = Some (Val (PInt (int n))) \<and>
            map_of r ''final_songs_count'' = Some (Val (PInt (int k))))
       \<and> 1 \<le> n \<and> n \<le> max_attempts
       \<and> last (trace s) = Routed n k
       \<and> (\<forall>ev \<in> set (trace s). event_attempt ev \<le> n)
       \<and> map attempt_number (attempts (workflow_details s)) = [1 ..< Suc n]"
  using run
proof (cases rule: run_cases)
  case (dirs x d w0 w1)
  with routed show ?thesis by (simp add: initial_state_simps)
next
  case (kept n' k' d)
  from in_set_butlast_last [OF kept(3) routed] kept(4,5) \<open>0 < k\<close>
  have eq: "n' = n" "k' = k" by (auto simp: routed_zero_def)
  from kept(6) routed have "1 \<le> n" by fastforce
  with kept eq show ?thesis by (simp add: success_result_fields)
next
  case (fatal e)
  with routed \<open>0 < k\<close> show ?thesis by (auto simp: routed_zero_def)
next
  case (escaped b m)
  with routed \<open>0 < k\<close> show ?thesis by (auto simp: routed_zero_def)
next
  case exhausted
  with routed \<open>0 < k\<close> show ?thesis by (auto simp: routed_zero_def)
qed

text \<open>The run with the approving review endpoint: attempt 1 keeps one song and is the only attempt.\<close>

theorem kept_song_ends_workflow_witness:
  "Routed 1 1 \<in> set (trace (snd approving_run))
   \<and> (\<exists>r. fst approving_run = Inr r \<and>
          map_of r ''success'' = Some (Val (PBool True)) \<and>
          map_of r ''total_attempts'' = Some (Val (PInt 1)) \<and>
          map_of r ''final_songs_count'' = Some (Val (PInt 1)))
   \<and> last (trace (snd approving_run)) = Routed 1 1
   \<and> map attempt_number (attempts (workflow_details (snd approving_run))) = [1]
   \<and> paths (files (world (snd approving_run))) = {''backend/songs/final_review/b.mp3''}"
proof -
  have run: "execute_song_workflow (source_callees approving_handlers) psalm_request empty_disk
      = (fst approving_run, snd approving_run)"
    by (simp add: approving_run_def)
  have routed: "Routed 1 1 \<in> set (trace (snd approving_run))"
    by (simp add: approving_run_trace)
  from kept_song_ends_workflow [OF run routed] routed approving_run_files
  show ?thesis by simp
qed

lemma run_attempt_catches:
  assumes "generation_step cs rq t d n
      \<lparr>attempt_number = n, generation_success = False, downloads = [], reviews = [],
       final_action = None\<rparr> s0 = (Inl (Exc e, ad), s1)"
  shows "\<exists>exit s2. run_attempt cs rq t d n s0 = (Inr exit, s2) \<and>
           trace s2 = trace s1 @ [Caught n e] \<and>
           attempts (workflow_details s2) = attempts (workflow_details s1) @
             [ad\<lparr>final_action := Some (''exception: '' @ critical_error n e)\<rparr>] \<and>
           (exit = Next_attempt \<longleftrightarrow> n \<noteq> max_attempts)"
  using assms
  by (simp add: run_attempt_def Let_def record_attempt_def log_event_def)

lemma run_attempt_passes:
  assumes "generation_step cs rq t d n
      \<lparr>attempt_number = n, generation_success = False, downloads = [], reviews = [],
       final_action = None\<rparr> s0 = (Inl (Base_exception b, ad), s1)"
  shows "run_attempt cs rq t d n s0 = (Inl (Base_exception b), s1)"
  using assms by (simp add: run_attempt_def)

text \<open>
  C5, amended. In every run, with any callees: an instance of \<^verbatim>\<open>Exception\<close> raised by a
  step of attempt \<open>n\<close> is caught by the handler of that attempt (the entry \<open>Caught n e\<close>,
  which is never there without a step that raised \<open>e\<close>), the attempt history has a record
  of attempt \<open>n\<close> whose outcome is the formatted exception, and before the last attempt the
  next attempt starts with its generation call. A \<^verbatim>\<open>BaseException\<close> that is not an
  \<^verbatim>\<open>Exception\<close>, such as \<^verbatim>\<open>asyncio.CancelledError\<close> during the wait, is not caught: it
  leaves the attempt and the function as it is. The result has \<^verbatim>\<open>success\<close> false exactly
  when an exception was caught on attempt 3, and it then has \<^verbatim>\<open>total_attempts\<close> 3 and
  \<^verbatim>\<open>final_songs_count\<close> 0. If \<^verbatim>\<open>execute_song_workflow\<close> raises, then \<^verbatim>\<open>os.makedirs\<close>
  raised before the first attempt, or a step raised a \<^verbatim>\<open>BaseException\<close> that is not an
  \<^verbatim>\<open>Exception\<close>, or the fail-safe handler raised after the loop.
\<close>

theorem attempt_exceptions_are_caught:
  assumes run: "execute_song_workflow cs rq w = (out, s)"
  shows "(\<forall>n e. Caught n e \<in> set (trace s) \<longrightarrow>
            raised_in_step cs rq (Exc e) \<and>
            (\<exists>att \<in> set (attempts (workflow_details s)). attempt_number att = n \<and>
               final_action att = Some (''exception: '' @ critical_error n e)) \<and>
            (n < max_attempts \<longrightarrow> Generation (Suc n) \<in> set (trace s)))
       \<and> (\<forall>t d n s0 e ad s1.
            generation_step cs rq t d n
              \<lparr>attempt_number = n, generation_success = False, downloads = [], reviews = [],
               final_action = None\<rparr> s0 = (Inl (Exc e, ad), s1) \<longrightarrow>
            (\<exists>exit s2. run_attempt cs rq t d n s0 = (Inr exit, s2) \<and>
               trace s2 = trace s1 @ [Caught n e] \<and>
               attempts (workflow_details s2) = attempts (workflow_details s1) @
                 [ad\<lparr>final_action := Some (''exception: '' @ critical_error n e)\<rparr>] \<and>
               (exit = Next_attempt \<longleftrightarrow> n \<noteq> max_attempts)))
       \<and> (\<forall>t d n s0 b ad s1.
            generation_step cs rq t d n
              \<lparr>attempt_number = n, generation_success = False, downloads = [], reviews = [],
               final_action = None\<rparr> s0 = (Inl (Base_exception b, ad), s1) \<longrightarrow>
            run_attempt cs rq t d n s0 = (Inl (Base_exception b), s1))
       \<and> ((\<exists>r. out = Inr r \<and> map_of r ''success'' = Some (Val (PBool False))) \<longleftrightarrow>
            (\<exists>e. Caught max_attempts e \<in> set (trace s)))
       \<and> (\<forall>r. out = Inr r \<and> map_of r ''success'' = Some (Val (PBool False)) \<longrightarrow>
            map_of r ''total_attempts'' = Some (Val (PInt 3)) \<and>
            map_of r ''final_songs_count'' = Some (Val (PInt 0)))
       \<and> (\<forall>x. out = Inl x \<longrightarrow>
            (\<exists>d v v'. call_makedirs cs d v = (Inl x, v')) \<or>
            (\<exists>b. x = Base_exception b \<and> raised_in_step cs rq x) \<or>
            (\<exists>songs v v'. call_handle_failsafe_songs cs songs verify_final_destination_folder v
               = (Inl x, v')))"
proof -
  have one: "\<forall>n e. Caught n e \<in> set (trace s) \<longrightarrow>
            raised_in_step cs rq (Exc e) \<and>
            (\<exists>att \<in> set (attempts (workflow_details s)). attempt_number att = n \<and>
               final_action att = Some (''exception: '' @ critical_error n e)) \<and>
            (n < max_attempts \<longrightarrow> Generation (Suc n) \<in> set (trace s))"
  proof (intro allI impI)
    fix n e assume c: "Caught n e \<in> set (trace s)"
    from run_raised [OF run] c have "raised_in_step cs rq (Exc e)" by blast
    with run_caught [OF run c]
    show "raised_in_step cs rq (Exc e) \<and>
            (\<exists>att \<in> set (attempts (workflow_details s)). attempt_number att = n \<and>
               final_action att = Some (''exception: '' @ critical_error n e)) \<and>
            (n < max_attempts \<longrightarrow> Generation (Suc n) \<in> set (trace s))"
      by simp
  qed
  have two: "\<forall>t d n s0 e ad s1.
            generation_step cs rq t d n
              \<lparr>attempt_number = n, generation_success = False, downloads = [], reviews = [],
               final_action = None\<rparr> s0 = (Inl (Exc e, ad), s1) \<longrightarrow>
            (\<exists>exit s2. run_attempt cs rq t d n s0 = (Inr exit, s2) \<and>
               trace s2 = trace s1 @ [Caught n e] \<and>
               attempts (workflow_details s2) = attempts (workflow_details s1) @
                 [ad\<lparr>final_action := Some (''exception: '' @ critical_error n e)\<rparr>] \<and>
               (exit = Next_attempt \<longleftrightarrow> n \<noteq> max_attempts))"
    by (intro allI impI) (rule run_attempt_catches)
  have three: "\<forall>t d n s0 b ad s1.
            generation_step cs rq t d n
              \<lparr>attempt_number = n, generation_success = False, downloads = [], reviews = [],
               final_action = None\<rparr> s0 = (Inl (Base_exception b, ad), s1) \<longrightarrow>
            run_attempt cs rq t d n s0 = (Inl (Base_exception b), s1)"
    by (intro allI impI) (rule run_attempt_passes)
  have six: "\<forall>x. out = Inl x \<longrightarrow>
            (\<exists>d v v'. call_makedirs cs d v = (Inl x, v')) \<or>
            (\<exists>b. x = Base_exception b \<and> raised_in_step cs rq x) \<or>
            (\<exists>songs v v'. call_handle_failsafe_songs cs songs verify_final_destination_folder v
               = (Inl x, v'))"
    using run_raised [OF run] by (rule conjunct2)
  have rest: "((\<exists>r. out = Inr r \<and> map_of r ''success'' = Some (Val (PBool False))) \<longleftrightarrow>
            (\<exists>e. Caught max_attempts e \<in> set (trace s)))
       \<and> (\<forall>r. out = Inr r \<and> map_of r ''success'' = Some (Val (PBool False)) \<longrightarrow>
            map_of r ''total_attempts'' = Some (Val (PInt 3)) \<and>
            map_of r ''final_songs_count'' = Some (Val (PInt 0)))"
    using run
  proof (cases rule: run_cases)
    case (dirs x d w0 w1)
    then show ?thesis by (simp add: initial_state_simps)
  next
    case (kept n k d)
    then show ?thesis by (simp add: success_result_fields)
  next
    case (fatal e)
    have "Caught max_attempts e \<in> set (trace s)" using fatal(2,3) last_in_set by metis
    with fatal(1) show ?thesis by (auto simp: fatal_result_fields max_attempts_def)
  next
    case (escaped b n)
    then show ?thesis by simp
  next
    case exhausted
    from exhausted(4) show ?thesis
    proof (elim disjE exE conjE)
      fix e songs v v'
      assume "out = Inl e"
        "call_handle_failsafe_songs cs songs verify_final_destination_folder v = (Inl e, v')"
      with exhausted(2) show ?thesis by auto
    next
      fix m assume "0 < m" "out = Inr (failsafe_result m (workflow_details s))"
      with exhausted(2) show ?thesis by (simp add: failsafe_result_fields)
    next
      assume "out = Inr (exhausted_result (workflow_details s))"
      with exhausted(2) show ?thesis by (simp add: exhausted_result_fields)
    qed
  qed
  show ?thesis
    by (intro conjI one two three rest [THEN conjunct1] rest [THEN conjunct2] six)
qed


text \<open>
  The run in which every wait raises an \<^verbatim>\<open>Exception\<close>: the exception of attempt 1 is
  caught, recorded, and attempt 2 starts; the exception of attempt 3 gives the fatal result.
  The run in which the wait is cancelled: the attempt and the function raise.
\<close>

theorem attempt_exceptions_are_caught_witness:
  "Caught 1 (Exception ''Event loop is closed'') \<in> set (trace (snd interrupted_run))
   \<and> raised_in_step (source_callees interrupted_handlers) psalm_request (Exc (Exception ''Event loop is closed''))
   \<and> (\<exists>att. att \<in> set (attempts (workflow_details (snd interrupted_run))) \<and>
          attempt_number att = 1 \<and>
          final_action att =
            Some (''exception: '' @ critical_error 1 (Exception ''Event loop is closed'')))
   \<and> Generation 2 \<in> set (trace (snd interrupted_run))
   \<and> (\<exists>s2. run_attempt (source_callees interrupted_handlers) psalm_request ''backend/songs/temp''
              verify_final_destination_folder 1 fresh_state = (Inr Next_attempt, s2) \<and>
            last (trace s2) = Caught 1 (Exception ''Event loop is closed''))
   \<and> (\<exists>s1. run_attempt (source_callees cancelled_handlers) psalm_request ''backend/songs/temp''
              verify_final_destination_folder 1 fresh_state
              = (Inl (Base_exception ''CancelledError''), s1) \<and>
            trace s1 = [Generation 1, Waiting 1])
   \<and> Caught max_attempts (Exception ''Event loop is closed'') \<in> set (trace (snd interrupted_run))
   \<and> (\<exists>r. fst interrupted_run = Inr r \<and>
          map_of r ''success'' = Some (Val (PBool False)) \<and>
          map_of r ''total_attempts'' = Some (Val (PInt 3)) \<and>
          map_of r ''final_songs_count'' = Some (Val (PInt 0)))
   \<and> fst cancelled_run = Inl (Base_exception ''CancelledError'')
   \<and> raised_in_step (source_callees cancelled_handlers) psalm_request
        (Base_exception ''CancelledError'')"
proof -
  let ?e = "Exception ''Event loop is closed''"
  let ?cs = "source_callees cancelled_handlers"
  have run: "execute_song_workflow (source_callees interrupted_handlers) psalm_request empty_disk
      = (fst interrupted_run, snd interrupted_run)"
    by (simp add: interrupted_run_def)
  have run': "execute_song_workflow ?cs psalm_request empty_disk
      = (fst cancelled_run, snd cancelled_run)"
    by (simp add: cancelled_run_def)
  note inst = attempt_exceptions_are_caught [OF run]
  note inst' = attempt_exceptions_are_caught [OF run']
  have first: "Caught 1 ?e \<in> set (trace (snd interrupted_run))"
    and last: "Caught max_attempts ?e \<in> set (trace (snd interrupted_run))"
    by (simp_all add: interrupted_run_trace max_attempts_def)
  note caught = inst [THEN conjunct1, rule_format, OF first]
  have raised: "raised_in_step (source_callees interrupted_handlers) psalm_request (Exc ?e)"
    using caught by (rule conjunct1)
  have recorded: "\<exists>att. att \<in> set (attempts (workflow_details (snd interrupted_run))) \<and>
          attempt_number att = 1 \<and>
          final_action att = Some (''exception: '' @ critical_error 1 ?e)"
    using caught [THEN conjunct2, THEN conjunct1] by blast
  have "1 < max_attempts \<longrightarrow> Generation (Suc 1) \<in> set (trace (snd interrupted_run))"
    using caught [THEN conjunct2, THEN conjunct2] .
  then have next_attempt: "Generation 2 \<in> set (trace (snd interrupted_run))"
    by (simp add: max_attempts_def numeral_2_eq_2)
  from interrupted_attempt obtain ad s1 where
    step: "generation_step (source_callees interrupted_handlers) psalm_request
       ''backend/songs/temp'' verify_final_destination_folder 1
       \<lparr>attempt_number = 1, generation_success = False, downloads = [], reviews = [],
        final_action = None\<rparr> fresh_state = (Inl (Exc ?e, ad), s1)"
    by blast
  from inst [THEN conjunct2, THEN conjunct1, rule_format, OF step]
  obtain exit s2 where handled:
    "run_attempt (source_callees interrupted_handlers) psalm_request ''backend/songs/temp''
       verify_final_destination_folder 1 fresh_state = (Inr exit, s2)"
    "trace s2 = trace s1 @ [Caught 1 ?e]" "exit = Next_attempt \<longleftrightarrow> 1 \<noteq> max_attempts"
    by blast
  then have "exit = Next_attempt" by (simp add: max_attempts_def)
  with handled have catches:
    "\<exists>s2. run_attempt (source_callees interrupted_handlers) psalm_request ''backend/songs/temp''
              verify_final_destination_folder 1 fresh_state = (Inr Next_attempt, s2) \<and>
            last (trace s2) = Caught 1 ?e"
    by simp
  from cancelled_attempt obtain ad' s1' where
    step': "generation_step ?cs psalm_request
       ''backend/songs/temp'' verify_final_destination_folder 1
       \<lparr>attempt_number = 1, generation_success = False, downloads = [], reviews = [],
        final_action = None\<rparr> fresh_state = (Inl (Base_exception ''CancelledError'', ad'), s1')"
    and tr: "trace s1' = [Generation 1, Waiting 1]"
    by blast
  from inst' [THEN conjunct2, THEN conjunct2, THEN conjunct1, rule_format, OF step'] tr
  have passes:
    "\<exists>s1. run_attempt ?cs psalm_request ''backend/songs/temp''
              verify_final_destination_folder 1 fresh_state
              = (Inl (Base_exception ''CancelledError''), s1) \<and>
            trace s1 = [Generation 1, Waiting 1]"
    by blast
  note fatal = inst [THEN conjunct2, THEN conjunct2, THEN conjunct2, THEN conjunct1]
  note totals = inst [THEN conjunct2, THEN conjunct2, THEN conjunct2, THEN conjunct2,
      THEN conjunct1]
  from fatal last obtain r where r: "fst interrupted_run = Inr r"
    "map_of r ''success'' = Some (Val (PBool False))"
    by blast
  with totals have "map_of r ''total_attempts'' = Some (Val (PInt 3))"
    "map_of r ''final_songs_count'' = Some (Val (PInt 0))"
    by blast+
  with r have result: "\<exists>r. fst interrupted_run = Inr r \<and>
          map_of r ''success'' = Some (Val (PBool False)) \<and>
          map_of r ''total_attempts'' = Some (Val (PInt 3)) \<and>
          map_of r ''final_songs_count'' = Some (Val (PInt 0))"
    by blast
  have out: "fst cancelled_run = Inl (Base_exception ''CancelledError'')"
    by (simp add: cancelled_run_value)
  note causes = inst' [THEN conjunct2, THEN conjunct2, THEN conjunct2, THEN conjunct2,
      THEN conjunct2, rule_format, OF out]
  have no_dirs: "\<not> (\<exists>d v v'. call_makedirs ?cs d v = (Inl (Base_exception ''CancelledError''), v'))"
    by (auto simp: source_callees_def makedirs_on_files_def split: sum.splits)
  have no_failsafe: "\<not> (\<exists>songs v v'. call_handle_failsafe_songs ?cs songs
        verify_final_destination_folder v = (Inl (Base_exception ''CancelledError''), v'))"
    by (simp add: source_callees_def returning_def on_files_def split: prod.splits)
  from causes no_dirs no_failsafe
  have cancelled: "raised_in_step ?cs psalm_request (Base_exception ''CancelledError'')"
    by blast
  show ?thesis
    by (intro conjI first raised recorded next_attempt catches passes last result out cancelled)
qed

text \<open>
  With the handlers of the module, a wait that is cancelled raises \<^verbatim>\<open>CancelledError\<close>,
  which is not an \<^verbatim>\<open>Exception\<close>: the run ends in attempt 1 by raising it, nothing is caught
  and the attempt has no record.
\<close>

theorem cancelled_wait_leaves_workflow:
  "call_sleep (source_callees cancelled_handlers) (3 * 60) empty_disk
     = (Inl (Base_exception ''CancelledError''), empty_disk)
   \<and> fst cancelled_run = Inl (Base_exception ''CancelledError'')
   \<and> trace (snd cancelled_run) = [Generation 1, Waiting 1]
   \<and> attempts (workflow_details (snd cancelled_run)) = []"
  using cancelled_sleep by (simp add: cancelled_run_value)

lemma failed_generation_attempt:
  assumes "call_generate_songs cs (book_name rq) (chapter_number rq) (verse_range rq) (style rq)
      (song_title rq) (world s) = (Inr (Generation_failed err), w1)"
  shows "run_attempt cs rq t f n s =
     (Inr Next_attempt,
      s\<lparr>world := w1, trace := trace s @ [Generation n],
        workflow_details := (workflow_details s)\<lparr>attempts := attempts (workflow_details s) @
          [\<lparr>attempt_number = n, generation_success = False, downloads = [], reviews = [],
            final_action = Some (''generation_failed: '' @ err)\<rparr>]\<rparr>\<rparr>)"
  using assms
  by (simp add: run_attempt_def generation_step_def log_event_def record_attempt_def)


text \<open>
  C8. If, once the two directories are there, the generation returns a reported failure on
  each of the three attempts, the run consists of the three generation calls; no song is
  staged, the candidate set of the fail-safe is empty when the loop ends, and the result
  has \<^verbatim>\<open>success\<close> true, \<^verbatim>\<open>final_songs_count\<close> 0, \<^verbatim>\<open>good_songs\<close> 0 and the message that
  explains it. On an empty candidate set the fail-safe handler moves nothing, counts
  nothing and leaves the files as they are, which is why the source can skip the call. In
  any run whatever, a result with \<^verbatim>\<open>success\<close> false comes from an exception caught on
  attempt 3.
\<close>

theorem reported_generation_failure:
  assumes m1: "call_makedirs cs ''backend/songs/temp'' w0 = (Inr (), w0')"
    and m2: "call_makedirs cs verify_final_destination_folder w0' = (Inr (), w)"
    and g1: "call_generate_songs cs (book_name rq) (chapter_number rq) (verse_range rq) (style rq)
      (song_title rq) w = (Inr (Generation_failed err1), w1)"
    and g2: "call_generate_songs cs (book_name rq) (chapter_number rq) (verse_range rq) (style rq)
      (song_title rq) w1 = (Inr (Generation_failed err2), w2)"
    and g3: "call_generate_songs cs (book_name rq) (chapter_number rq) (verse_range rq) (style rq)
      (song_title rq) w2 = (Inr (Generation_failed err3), w3)"
  shows "(\<exists>details.
           execute_song_workflow cs rq w0 =
             (Inr (exhausted_result details),
              \<lparr>world = w3, trace = [Generation 1, Generation 2, Generation 3],
               workflow_details = details, final_attempt_songs = []\<rparr>) \<and>
           map final_action (attempts details) =
             [Some (''generation_failed: '' @ err1), Some (''generation_failed: '' @ err2),
              Some (''generation_failed: '' @ err3)] \<and>
           map downloads (attempts details) = [[], [], []] \<and>
           total_songs_generated details = 0 \<and> songs_kept details = 0 \<and>
           map_of (exhausted_result details) ''success'' = Some (Val (PBool True)) \<and>
           map_of (exhausted_result details) ''final_songs_count'' = Some (Val (PInt 0)) \<and>
           map_of (exhausted_result details) ''good_songs'' = Some (Val (PInt 0)) \<and>
           map_of (exhausted_result details) ''message'' =
             Some (Val (PStr (score_sign @ '' Max attempts (3) reached. All generated songs were rejected by AI review. No songs were successfully downloaded in final attempt.''))))
       \<and> handle_failsafe_songs [] verify_final_destination_folder fs
            = (\<lparr>moved_count = 0, error_count = 0\<rparr>, fs)
       \<and> (\<forall>cs' rq' v out' s'.
            execute_song_workflow cs' rq' v = (out', s') \<and>
            (\<exists>r. out' = Inr r \<and> map_of r ''success'' = Some (Val (PBool False))) \<longrightarrow>
              (\<exists>e. Caught max_attempts e \<in> set (trace s')))"
proof -
  let ?rec = "\<lambda>n err. \<lparr>attempt_number = n, generation_success = False, downloads = [], reviews = [],
            final_action = Some (''generation_failed: '' @ err)\<rparr>"
  let ?details = "\<lparr>attempts = [?rec 1 err1, ?rec 2 err2, ?rec 3 err3], total_songs_generated = 0,
                  total_songs_reviewed = 0, songs_kept = 0, songs_deleted = 0\<rparr>"
  have run: "execute_song_workflow cs rq w0 =
             (Inr (exhausted_result ?details),
              \<lparr>world = w3, trace = [Generation 1, Generation 2, Generation 3],
               workflow_details = ?details, final_attempt_songs = []\<rparr>)"
    unfolding execute_song_workflow_def workflow_loop_def Let_def attempt_numbers
    by (simp add: m1 m2 failed_generation_attempt g1 g2 g3 failsafe_step_def initial_state_def)
  have one: "\<exists>details.
           execute_song_workflow cs rq w0 =
             (Inr (exhausted_result details),
              \<lparr>world = w3, trace = [Generation 1, Generation 2, Generation 3],
               workflow_details = details, final_attempt_songs = []\<rparr>) \<and>
           map final_action (attempts details) =
             [Some (''generation_failed: '' @ err1), Some (''generation_failed: '' @ err2),
              Some (''generation_failed: '' @ err3)] \<and>
           map downloads (attempts details) = [[], [], []] \<and>
           total_songs_generated details = 0 \<and> songs_kept details = 0 \<and>
           map_of (exhausted_result details) ''success'' = Some (Val (PBool True)) \<and>
           map_of (exhausted_result details) ''final_songs_count'' = Some (Val (PInt 0)) \<and>
           map_of (exhausted_result details) ''good_songs'' = Some (Val (PInt 0)) \<and>
           map_of (exhausted_result details) ''message'' =
             Some (Val (PStr (score_sign @ '' Max attempts (3) reached. All generated songs were rejected by AI review. No songs were successfully downloaded in final attempt.'')))"
    by (rule exI [of _ ?details])
       (simp add: run exhausted_result_def max_attempts_def str_nat_digit)
  have two: "handle_failsafe_songs [] verify_final_destination_folder fs
            = (\<lparr>moved_count = 0, error_count = 0\<rparr>, fs)"
    by (simp add: handle_failsafe_songs_def)
  have three: "\<forall>cs' rq' v out' s'.
            execute_song_workflow cs' rq' v = (out', s') \<and>
            (\<exists>r. out' = Inr r \<and> map_of r ''success'' = Some (Val (PBool False))) \<longrightarrow>
              (\<exists>e. Caught max_attempts e \<in> set (trace s'))"
  proof (intro allI impI, elim conjE exE)
    fix cs' :: "'c callees" and rq' v out' s' r
    assume run': "execute_song_workflow cs' rq' v = (out', s')"
      and r: "out' = Inr r" "map_of r ''success'' = Some (Val (PBool False))"
    from run' show "\<exists>e. Caught max_attempts e \<in> set (trace s')"
    proof (cases rule: run_cases)
      case (dirs x d u0 u1)
      with r show ?thesis by simp
    next
      case (kept n k d)
      with r show ?thesis by (auto simp: success_result_fields)
    next
      case (fatal e)
      then show ?thesis using last_in_set by metis
    next
      case (escaped b n)
      with r show ?thesis by simp
    next
      case exhausted
      with r show ?thesis
        by (auto simp: failsafe_result_fields exhausted_result_fields)
    qed
  qed
  from one two three show ?thesis by simp
qed

text \<open>
  The run with the declining generation; and the run in which every wait raises, whose
  result has \<^verbatim>\<open>success\<close> false.
\<close>

theorem reported_generation_failure_witness:
  "(\<exists>details.
      execute_song_workflow (source_callees declining_handlers) psalm_request empty_disk =
        (Inr (exhausted_result details),
         \<lparr>world = empty_disk, trace = [Generation 1, Generation 2, Generation 3],
          workflow_details = details, final_attempt_songs = []\<rparr>) \<and>
      map final_action (attempts details) =
        [Some ''generation_failed: Song generation returned invalid result'',
         Some ''generation_failed: Song generation returned invalid result'',
         Some ''generation_failed: Song generation returned invalid result''] \<and>
      map_of (exhausted_result details) ''success'' = Some (Val (PBool True)) \<and>
      map_of (exhausted_result details) ''final_songs_count'' = Some (Val (PInt 0)) \<and>
      map_of (exhausted_result details) ''good_songs'' = Some (Val (PInt 0)))
   \<and> handle_failsafe_songs [] verify_final_destination_folder staged_a
        = (\<lparr>moved_count = 0, error_count = 0\<rparr>, staged_a)
   \<and> (\<exists>e. Caught max_attempts e \<in> set (trace (snd interrupted_run)))"
proof -
  note inst = reported_generation_failure [OF declining_makedirs declining_makedirs
      declining_generation declining_generation declining_generation, of staged_a]
  from inst [THEN conjunct1] have one: "\<exists>details.
      execute_song_workflow (source_callees declining_handlers) psalm_request empty_disk =
        (Inr (exhausted_result details),
         \<lparr>world = empty_disk, trace = [Generation 1, Generation 2, Generation 3],
          workflow_details = details, final_attempt_songs = []\<rparr>) \<and>
      map final_action (attempts details) =
        [Some ''generation_failed: Song generation returned invalid result'',
         Some ''generation_failed: Song generation returned invalid result'',
         Some ''generation_failed: Song generation returned invalid result''] \<and>
      map_of (exhausted_result details) ''success'' = Some (Val (PBool True)) \<and>
      map_of (exhausted_result details) ''final_songs_count'' = Some (Val (PInt 0)) \<and>
      map_of (exhausted_result details) ''good_songs'' = Some (Val (PInt 0))"
    by (elim conjE exE) (rule exI, simp)
  have two: "handle_failsafe_songs [] verify_final_destination_folder staged_a
        = (\<lparr>moved_count = 0, error_count = 0\<rparr>, staged_a)"
    using inst [THEN conjunct2] by (rule conjunct1)
  have only: "\<forall>cs' rq' (v :: world_files) out' s'.
            execute_song_workflow cs' rq' v = (out', s') \<and>
            (\<exists>r. out' = Inr r \<and> map_of r ''success'' = Some (Val (PBool False))) \<longrightarrow>
              (\<exists>e. Caught max_attempts e \<in> set (trace s'))"
    using inst [THEN conjunct2] by (rule conjunct2)
  have run: "execute_song_workflow (source_callees interrupted_handlers) psalm_request empty_disk
      = (fst interrupted_run, snd interrupted_run)"
    by (simp add: interrupted_run_def)
  have failed: "\<exists>r. fst interrupted_run = Inr r \<and> map_of r ''success'' = Some (Val (PBool False))"
    by (simp add: interrupted_run_result fatal_result_fields)
  from only [rule_format, OF conjI [OF run failed]]
  have three: "\<exists>e. Caught max_attempts e \<in> set (trace (snd interrupted_run))" .
  show ?thesis by (intro conjI one two three)
qed

























end
